theory Spec2Isabelle
  imports Main "HOL-Library.AList"
begin

section \<open>JavaScript values and the object heap\<close>

text \<open>
  The program is a browser script. Its objects are mutable and shared by reference (the store
  \<open>data\<close> sits on \<open>App.prototype\<close> and is reached through the prototype chain of
  every instance), so objects live in an explicit heap and a value of object type is a
  reference into it. A heap is the list of the objects allocated so far; the address of an
  object is its index, and \<open>{}\<close>, \<open>new\<close> and a function expression append to the list.

  An object has its own properties in insertion order, a prototype link, and, when it is a
  function, the code that a call runs. Only data properties are modelled: there are no
  getters or setters (so no accessor \<open>__proto__\<close>, as in a host of the generation of
  ECMAScript 5), no frozen objects and no arrays among the stored values. Numbers are
  integers; no operation of the modelled code computes with a stored number.
\<close>

type_synonym addr = nat

datatype jsval = Undefined | Null | Bool bool | Num int | Str string | Ref addr

text \<open>
  What a call of a function object runs. \<open>InitReady self\<close> is the closure that the
  constructor hands to \<open>ready\<close> (lines 112-117 of the source): it captures \<open>self\<close>.
  \<open>Native\<close> is any other function (a handler of the page, a method of the prototype, a
  function of the host); the model records its calls and nothing else of it.
\<close>

datatype fcode = InitReady addr | Native

record jsobj =
  props :: "(string \<times> jsval) list"
  proto :: "addr option"
  code :: "fcode option"

type_synonym heap = "jsobj list"

text \<open>\<open>Object.prototype\<close> and \<open>Function.prototype\<close> are the first two objects of every heap.\<close>

definition ObjectPrototype :: addr where
  "ObjectPrototype = 0"

definition FunctionPrototype :: addr where
  "FunctionPrototype = 1"

text \<open>
  Property lookup along the prototype chain. A prototype is allocated before the objects
  that inherit from it and the program never changes a prototype link, so a link always
  points to a smaller address; the walk stops at a link that does not.
\<close>

function lookup_chain :: "heap \<Rightarrow> addr \<Rightarrow> string \<Rightarrow> jsval option" where
  "lookup_chain h a k =
     (if a < length h then
        (case map_of (props (h ! a)) k of
           Some v \<Rightarrow> Some v
         | None \<Rightarrow>
             (case proto (h ! a) of
                Some p \<Rightarrow> if p < a then lookup_chain h p k else None
              | None \<Rightarrow> None))
      else None)"
  by pat_completeness auto
termination
  by (relation "measure (\<lambda>(h, a, k). a)") auto

declare lookup_chain.simps [simp del]

text \<open>\<open>key in object\<close> for an object at address \<open>a\<close>.\<close>

definition has_property :: "heap \<Rightarrow> addr \<Rightarrow> string \<Rightarrow> bool" where
  "has_property h a k = (lookup_chain h a k \<noteq> None)"

text \<open>\<open>object[key]\<close> as a read: \<open>undefined\<close> when the chain has no such property.\<close>

definition get_property :: "heap \<Rightarrow> addr \<Rightarrow> string \<Rightarrow> jsval" where
  "get_property h a k = (case lookup_chain h a k of Some v \<Rightarrow> v | None \<Rightarrow> Undefined)"

text \<open>
  \<open>object[key] = v\<close>: the assignment creates or updates an own property of the receiver
  (also when the chain has an inherited data property of that name).
\<close>

definition put_property :: "heap \<Rightarrow> addr \<Rightarrow> string \<Rightarrow> jsval \<Rightarrow> heap" where
  "put_property h a k v = h[a := (h ! a)\<lparr>props := AList.update k v (props (h ! a))\<rparr>]"

text \<open>The object literal \<open>{}\<close>: a new object that inherits from \<open>Object.prototype\<close>.\<close>

definition new_object :: "heap \<Rightarrow> jsval \<times> heap" where
  "new_object h = (Ref (length h), h @ [\<lparr>props = [], proto = Some ObjectPrototype, code = None\<rparr>])"

text \<open>
  The own property \<open>name\<close> of a function depends on the host: there is none, or it is the
  empty string for every function expression, or it is the name inferred from the variable
  or the key that the function expression is written under (the empty string when there is
  no such name).
\<close>

datatype name_mode = NoName | EmptyName | InferredName

definition name_prop :: "name_mode \<Rightarrow> string \<Rightarrow> (string \<times> jsval) list" where
  "name_prop m k =
     (case m of
        NoName \<Rightarrow> []
      | EmptyName \<Rightarrow> [(''name'', Str [])]
      | InferredName \<Rightarrow> [(''name'', Str k)])"

text \<open>
  A function expression with \<open>n\<close> parameters, evaluated when \<open>a\<close> is the first free
  address: the function object, which inherits from \<open>Function.prototype\<close> and has the own
  properties \<open>length\<close>, \<open>name\<close> (by the host) and \<open>prototype\<close>, and behind it the
  object that its \<open>prototype\<close> refers to, with the own property \<open>constructor\<close>.
\<close>

definition function_objects :: "name_mode \<Rightarrow> addr \<Rightarrow> fcode \<Rightarrow> nat \<Rightarrow> string \<Rightarrow> jsobj list" where
  "function_objects m a c n k =
     [\<lparr>props = [(''length'', Num (int n))] @ name_prop m k @ [(''prototype'', Ref (a + 1))],
       proto = Some FunctionPrototype, code = Some c\<rparr>,
      \<lparr>props = [(''constructor'', Ref a)], proto = Some ObjectPrototype, code = None\<rparr>]"

definition new_function :: "heap \<Rightarrow> name_mode \<Rightarrow> fcode \<Rightarrow> nat \<Rightarrow> string \<Rightarrow> jsval \<times> heap" where
  "new_function h m c n k = (Ref (length h), h @ function_objects m (length h) c n k)"

text \<open>The \<open>typeof\<close> operator.\<close>

definition typeof :: "heap \<Rightarrow> jsval \<Rightarrow> string" where
  "typeof h v =
     (case v of
        Undefined \<Rightarrow> ''undefined''
      | Null \<Rightarrow> ''object''
      | Bool b \<Rightarrow> ''boolean''
      | Num n \<Rightarrow> ''number''
      | Str s \<Rightarrow> ''string''
      | Ref a \<Rightarrow> if a < length h \<and> code (h ! a) \<noteq> None then ''function'' else ''object'')"

section \<open>Paths\<close>

text \<open>
  Strings are lists of characters, each a code unit from U+0000 to U+00FF.
  \<open>is_word_char\<close> is the class \<open>\w\<close> of the regular expression of line 59, which has
  no flag that widens it beyond ASCII.
\<close>

definition is_word_char :: "char \<Rightarrow> bool" where
  "is_word_char c =
     (c \<in> set ''abcdefghijklmnopqrstuvwxyzABCDEFGHIJKLMNOPQRSTUVWXYZ0123456789_'')"

text \<open>
  Line 59, \<open>path.replace(/\[(\w+)]/g, '.$1')\<close>. The scan goes from left to right. At a
  \<open>[\<close> the greedy \<open>\w+\<close> takes the longest run of word characters; the match succeeds
  when that run is not empty and a \<open>]\<close> follows it (a shorter run is followed by a word
  character, never by \<open>]\<close>). A match is replaced by a dot and the run, and the scan goes on
  behind the \<open>]\<close>; without a match the character is kept.
\<close>

function replace_brackets :: "string \<Rightarrow> string" where
  "replace_brackets [] = []"
| "replace_brackets (c # cs) =
     (if c = CHR ''['' \<and> takeWhile is_word_char cs \<noteq> []
           \<and> dropWhile is_word_char cs \<noteq> [] \<and> hd (dropWhile is_word_char cs) = CHR '']''
      then CHR ''.'' # takeWhile is_word_char cs @ replace_brackets (tl (dropWhile is_word_char cs))
      else c # replace_brackets cs)"
  by pat_completeness auto
termination
proof (relation "measure length")
  show "wf (measure length)" by simp
next
  fix c :: char and cs :: string
  have "length (dropWhile is_word_char cs) \<le> length cs"
    by (rule length_dropWhile_le)
  then show "(tl (dropWhile is_word_char cs), c # cs) \<in> measure length" by simp
next
  fix c :: char and cs :: string
  show "(cs, c # cs) \<in> measure length" by simp
qed

text \<open>Line 61, \<open>path.replace(/^\./, '')\<close>: one leading dot is removed.\<close>

fun strip_leading_dot :: "string \<Rightarrow> string" where
  "strip_leading_dot [] = []"
| "strip_leading_dot (c # cs) = (if c = CHR ''.'' then cs else c # cs)"

text \<open>Line 63, \<open>path.split('.')\<close>: the empty string gives one empty segment.\<close>

fun split_dot :: "string \<Rightarrow> string list" where
  "split_dot [] = [[]]"
| "split_dot (c # cs) =
     (if c = CHR ''.'' then [] # split_dot cs
      else (case split_dot cs of [] \<Rightarrow> [[c]] | s # ss \<Rightarrow> (c # s) # ss))"

text \<open>
  \<open>String.prototype.toLowerCase\<close>. A character is a code unit from U+0000 to U+00FF. Among
  these the capital letters are \<open>A\<close> to \<open>Z\<close> and U+00C0 to U+00DE without the sign
  U+00D7, and the small letter of each is 32 above it.
\<close>

definition lower_char :: "char \<Rightarrow> char" where
  "lower_char c =
     (let n = of_char c :: nat in
      if (65 \<le> n \<and> n \<le> 90) \<or> (192 \<le> n \<and> n \<le> 222 \<and> n \<noteq> 215)
      then char_of (n + 32) else c)"

definition toLowerCase :: "string \<Rightarrow> string" where
  "toLowerCase s = map lower_char s"

text \<open>A path is a string or an array of segment keys (\<open>@param {Array|string} path\<close>).\<close>

datatype path = PathString string | PathArray "string list"

section \<open>The accessor \<open>_getOrSet\<close>\<close>

datatype error = TypeError

text \<open>
  The loop of lines 66-85 over the segments that are left. \<open>key in object\<close> throws a
  TypeError when \<open>object\<close> is not an object. A throw keeps the heap as it is at that
  moment, so the heap is returned beside the outcome.
\<close>

fun getOrSet_loop :: "heap \<Rightarrow> jsval \<Rightarrow> string list \<Rightarrow> jsval \<Rightarrow> jsval \<Rightarrow> (error + jsval) \<times> heap" where
  "getOrSet_loop h object [] value create = (Inr object, h)"
| "getOrSet_loop h object (key # rest) value create =
     (case object of
        Ref a \<Rightarrow>
          (if \<not> has_property h a key \<and> create = Bool True then
             (case (if rest = [] then (value, h) else new_object h) of
                (v, h1) \<Rightarrow>
                  getOrSet_loop (put_property h1 a key v)
                    (get_property (put_property h1 a key v) a key) rest value create)
           else if has_property h a key then
             getOrSet_loop h (get_property h a key) rest value create
           else (Inr value, h))
      | _ \<Rightarrow> (Inl TypeError, h))"

text \<open>Lines 56-64: a string path is normalised into its segments, an array is used as it is.\<close>

definition normalise :: "string \<Rightarrow> string list" where
  "normalise s = split_dot (strip_leading_dot (replace_brackets s))"

definition path_segments :: "path \<Rightarrow> string list" where
  "path_segments p = (case p of PathString s \<Rightarrow> normalise s | PathArray ks \<Rightarrow> ks)"

definition getOrSet :: "heap \<Rightarrow> jsval \<Rightarrow> path \<Rightarrow> jsval \<Rightarrow> jsval \<Rightarrow> (error + jsval) \<times> heap" where
  "getOrSet h object path value create = getOrSet_loop h object (path_segments path) value create"

section \<open>The page around the script\<close>

text \<open>\<open>document.readyState\<close>.\<close>

datatype ready_state = Loading | Interactive | Complete

text \<open>
  The placeholder that \<open>window[...]\<close> gives on line 97, when there is one: its \<open>time\<close>
  and its \<open>queue\<close>. The queue is \<open>None\<close> when the value of \<open>loader.queue\<close> is not an
  array (\<open>isArray\<close> on line 256 says no); otherwise it is the list of the recorded calls,
  each one the list of its arguments.
\<close>

record placeholder =
  time :: jsval
  queue :: "jsval list list option"

text \<open>
  A deferred call stands for a closure of \<open>ready\<close>: the handler and the arguments
  \<open>thisArgs\<close> that it captured.
\<close>

type_synonym deferred = "jsval \<times> jsval list"

text \<open>
  The state that the script reads and writes: the heap; the document (\<open>readyState\<close>,
  whether \<open>document.addEventListener\<close> exists, the listeners added with
  \<open>addEventListener('DOMContentLoaded', ...)\<close> and with
  \<open>attachEvent('onreadystatechange', ...)\<close>); the callbacks given to \<open>setTimeout\<close> that
  have not run yet; the clock read by \<open>new Date().getTime()\<close>; the globals
  \<open>APP_LOADER_VAR\<close> (\<open>Undefined\<close> when it is not declared) and the placeholders among
  the properties of \<open>window\<close>, by name (\<open>window[name]\<close> is \<open>undefined\<close> for a name
  that is not listed); the object \<open>App.prototype\<close>; and the calls of native
  functions made so far, each with its arguments; and how the host names functions. What
  \<open>console.info\<close> prints is not part of the state.
\<close>

record state =
  heap :: heap
  readyState :: ready_state
  addEventListener :: bool
  domContentLoaded :: "deferred list"
  onreadystatechange :: "deferred list"
  timers :: "deferred list"
  now :: int
  APP_LOADER_VAR :: jsval
  window :: "(string \<times> placeholder) list"
  AppPrototype :: addr
  calls :: "(addr \<times> jsval list) list"
  functionNames :: name_mode

section \<open>The methods of \<open>App.prototype\<close>\<close>

text \<open>
  A method call \<open>self.m(...)\<close> of the source runs the method \<open>m\<close> of \<open>App.prototype\<close>:
  every instance inherits it, and neither \<open>get\<close>, \<open>set\<close> nor the callable form can
  replace a member that exists.
\<close>

text \<open>\<open>arguments[i]\<close>, \<open>undefined\<close> behind the last argument.\<close>

definition arg :: "jsval list \<Rightarrow> nat \<Rightarrow> jsval" where
  "arg arguments i = (if i < length arguments then arguments ! i else Undefined)"

text \<open>
  Lines 182-188, the inner function \<open>readyFn\<close>: it hands
  \<open>function () { handler.apply(undefined, thisArgs); }\<close> to \<open>setTimeout\<close>.
\<close>

definition readyFn :: "state \<Rightarrow> deferred \<Rightarrow> state" where
  "readyFn st d = st\<lparr>timers := timers st @ [d]\<rparr>"

text \<open>
  Lines 179-204, \<open>ready(handler, args)\<close>, on its \<open>arguments\<close>:
  \<open>thisArgs = slice.call(arguments, 1)\<close>.
\<close>

definition ready :: "state \<Rightarrow> jsval list \<Rightarrow> state" where
  "ready st arguments =
     (let handler = arg arguments 0; thisArgs = drop 1 arguments in
      if readyState st \<noteq> Loading then readyFn st (handler, thisArgs)
      else if addEventListener st then
        st\<lparr>domContentLoaded := domContentLoaded st @ [(handler, thisArgs)]\<rparr>
      else st\<lparr>onreadystatechange := onreadystatechange st @ [(handler, thisArgs)]\<rparr>)"

text \<open>Lines 209-211, \<open>get\<close>: three arguments, so \<open>create\<close> is \<open>undefined\<close>.\<close>

definition get :: "state \<Rightarrow> addr \<Rightarrow> path \<Rightarrow> jsval \<Rightarrow> (error + jsval) \<times> state" where
  "get st this path defaultValue =
     (case getOrSet (heap st) (Ref this) path defaultValue Undefined of
        (r, h) \<Rightarrow> (r, st\<lparr>heap := h\<rparr>))"

text \<open>Lines 216-218, \<open>set\<close>.\<close>

definition set_App :: "state \<Rightarrow> addr \<Rightarrow> path \<Rightarrow> jsval \<Rightarrow> (error + jsval) \<times> state" where
  "set_App st this path value =
     (case getOrSet (heap st) (Ref this) path value (Bool True) of
        (r, h) \<Rightarrow> (r, st\<lparr>heap := h\<rparr>))"

text \<open>
  Lines 255-263, \<open>each(collection, iteratee)\<close>. The iteratee may throw, which ends the
  loop, and it may fail to return (\<open>None\<close>).
\<close>

fun each_loop ::
  "nat \<Rightarrow> 'a list \<Rightarrow> ('a \<Rightarrow> nat \<Rightarrow> 's \<Rightarrow> ((error + jsval) \<times> 's) option) \<Rightarrow> 's
    \<Rightarrow> ((error + jsval) \<times> 's) option" where
  "each_loop i [] iteratee s = Some (Inr Undefined, s)"
| "each_loop i (x # xs) iteratee s =
     (case iteratee x i s of
        None \<Rightarrow> None
      | Some (Inl e, s') \<Rightarrow> Some (Inl e, s')
      | Some (Inr v, s') \<Rightarrow> each_loop (i + 1) xs iteratee s')"

definition each ::
  "'a list option \<Rightarrow> ('a \<Rightarrow> nat \<Rightarrow> 's \<Rightarrow> ((error + jsval) \<times> 's) option) \<Rightarrow> 's
    \<Rightarrow> ((error + jsval) \<times> 's) option" where
  "each collection iteratee s =
     (case collection of
        None \<Rightarrow> Some (Inr Undefined, s)
      | Some xs \<Rightarrow> each_loop 0 xs iteratee s)"

section \<open>The constructor \<open>App\<close>\<close>

text \<open>
  Lines 125-134, the \<open>switch\<close> on \<open>typeof path\<close> and the final \<open>return\<close>, with
  \<open>path = arguments[0]\<close> and \<open>value = arguments[1]\<close>.
\<close>

definition dispatch :: "state \<Rightarrow> addr \<Rightarrow> jsval list \<Rightarrow> (error + jsval) \<times> state" where
  "dispatch st self arguments =
     (let path = arg arguments 0; value = arg arguments 1 in
      case path of
        Str s \<Rightarrow>
          (let isSetter = (typeof (heap st) value \<noteq> ''undefined'') in
           case getOrSet (heap st) (get_property (heap st) self ''data'')
                  (PathString (toLowerCase s)) (if isSetter then value else Undefined)
                  (Bool isSetter) of
             (r, h) \<Rightarrow> (r, st\<lparr>heap := h\<rparr>))
      | _ \<Rightarrow>
          if typeof (heap st) path = ''function'' then (Inr Undefined, ready st arguments)
          else (Inr (get_property (heap st) self ''domready''), st))"

text \<open>Line 97: the name of the placeholder.\<close>

definition loader_name :: "state \<Rightarrow> string" where
  "loader_name st = (case APP_LOADER_VAR st of Str s \<Rightarrow> s | _ \<Rightarrow> ''app'')"

text \<open>
  Lines 103-117, the head of the first construction, for a placeholder that exists:
  \<open>self.time\<close>, \<open>self.appready\<close>, and the closure handed to \<open>self.ready\<close>, a
  function expression without parameters and without a name.
\<close>

definition init_head :: "state \<Rightarrow> addr \<Rightarrow> state" where
  "init_head st self =
     (let h1 = put_property (heap st) self ''time'' (Num (now st));
          h2 = put_property h1 self ''appready'' (Bool True)
      in case new_function h2 (functionNames st) (InitReady self) 0 [] of
           (f, h3) \<Rightarrow> ready (st\<lparr>heap := h3\<rparr>) [f])"

text \<open>
  Lines 96-135, \<open>App\<close> called with \<open>this = self\<close>. The replay of line 121 calls
  \<open>App\<close> again, so the function takes the depth of calls that it may use and returns
  \<open>None\<close> when that is not enough. On line 109 \<open>loader.time\<close> throws a TypeError
  when there is no placeholder; \<open>self.time\<close> and \<open>self.appready\<close> are written by then.
\<close>

primrec App :: "nat \<Rightarrow> state \<Rightarrow> addr \<Rightarrow> jsval list \<Rightarrow> ((error + jsval) \<times> state) option" where
  "App 0 st self arguments = None"
| "App (Suc n) st self arguments =
     (let loader = map_of (window st) (loader_name st) in
      if get_property (heap st) self ''appready'' = Bool False then
        (case loader of
           None \<Rightarrow>
             Some (Inl TypeError,
               st\<lparr>heap := put_property (put_property (heap st) self ''time'' (Num (now st)))
                              self ''appready'' (Bool True)\<rparr>)
         | Some l \<Rightarrow>
             (case each (queue l) (\<lambda>item i s. App n s self item) (init_head st self) of
                None \<Rightarrow> None
              | Some (Inl e, st') \<Rightarrow> Some (Inl e, st')
              | Some (Inr v, st') \<Rightarrow> Some (dispatch st' self arguments)))
      else Some (dispatch st self arguments))"

text \<open>
  \<open>new App(...)\<close>: a new object that inherits from \<open>App.prototype\<close> is \<open>this\<close>; the
  expression gives what the constructor returns when that is an object, else \<open>this\<close>.
\<close>

definition new_instance :: "state \<Rightarrow> state" where
  "new_instance st =
     st\<lparr>heap := heap st @ [\<lparr>props = [], proto = Some (AppPrototype st), code = None\<rparr>]\<rparr>"

definition new_App :: "nat \<Rightarrow> state \<Rightarrow> jsval list \<Rightarrow> ((error + jsval) \<times> state) option" where
  "new_App n st arguments =
     (let self = length (heap st) in
      case App n (new_instance st) self arguments of
        None \<Rightarrow> None
      | Some (Inl e, st') \<Rightarrow> Some (Inl e, st')
      | Some (Inr v, st') \<Rightarrow> Some (Inr (case v of Ref a \<Rightarrow> v | _ \<Rightarrow> Ref self), st'))"

section \<open>The host's side: timers and document events\<close>

text \<open>
  The callback of line 186, \<open>handler.apply(undefined, thisArgs)\<close>, when its timer fires.
  A native function is recorded with its arguments; the closure of the constructor sets
  \<open>self.domready\<close>; a handler that is not a function throws inside the timer, which
  changes nothing.
\<close>

definition run_handler :: "state \<Rightarrow> deferred \<Rightarrow> state" where
  "run_handler st d =
     (case fst d of
        Ref f \<Rightarrow>
          (if f < length (heap st) then
             (case code (heap st ! f) of
                Some (InitReady self) \<Rightarrow>
                  st\<lparr>heap := put_property (heap st) self ''domready'' (Bool True)\<rparr>
              | Some Native \<Rightarrow> st\<lparr>calls := calls st @ [(f, snd d)]\<rparr>
              | None \<Rightarrow> st)
           else st)
      | _ \<Rightarrow> st)"

text \<open>The pending timers fire in the order in which they were set (all have the delay 1).\<close>

definition run_timers :: "state \<Rightarrow> state" where
  "run_timers st = foldl run_handler (st\<lparr>timers := []\<rparr>) (timers st)"

text \<open>The listener of lines 193-195 runs \<open>readyFn\<close>.\<close>

definition fire_DOMContentLoaded :: "state \<Rightarrow> state" where
  "fire_DOMContentLoaded st = foldl readyFn st (domContentLoaded st)"

text \<open>The listener of lines 198-202 runs \<open>readyFn\<close> unless the document is still loading.\<close>

definition fire_readystatechange :: "state \<Rightarrow> state" where
  "fire_readystatechange st =
     foldl (\<lambda>s d. if readyState s \<noteq> Loading then readyFn s d else s) st (onreadystatechange st)"

text \<open>
  A loading document becomes ready: \<open>readyState\<close> turns to \<open>interactive\<close> and then to
  \<open>complete\<close>, each change with a \<open>readystatechange\<close> event, and \<open>DOMContentLoaded\<close>
  is sent once in between.
\<close>

definition document_loads :: "state \<Rightarrow> state" where
  "document_loads st =
     fire_readystatechange
       ((fire_DOMContentLoaded (fire_readystatechange (st\<lparr>readyState := Interactive\<rparr>)))
          \<lparr>readyState := Complete\<rparr>)"

section \<open>Loading the script\<close>

text \<open>
  Lines 96-135 and 141-582: the objects that the script allocates when it is loaded, behind
  the objects that the page has by then (\<open>b\<close> is the first free address). The function
  expression of \<open>App\<close> comes first (the function at \<open>b\<close> and the object that its
  \<open>prototype\<close> refers to at first), then the object literal that line 141 assigns to
  \<open>App.prototype\<close> (at \<open>b + 2\<close>), the store \<open>data\<close> (at \<open>b + 3\<close>), and the 24
  function expressions of the literal in its order, two objects each. Three members are read
  from the page: \<open>debug\<close> is \<open>!!window.APP_DEBUG\<close>, \<open>for\<close> is \<open>self.each\<close> with the
  global \<open>self\<close> (the window), and \<open>ie\<close> is what the user agent gives (\<open>false\<close> or a
  version number).
\<close>

text \<open>The functions of the literal, each with the number of its parameters.\<close>

definition methods :: "(string \<times> nat) list" where
  "methods =
     [(''error'', 1), (''ready'', 2), (''get'', 2), (''set'', 2), (''proxy'', 3), (''each'', 2),
      (''forEach'', 2), (''deepExtend'', 2), (''extend'', 2), (''indexOf'', 2), (''isArray'', 1),
      (''map'', 2), (''now'', 0), (''parseHtml'', 1), (''parseJson'', 1), (''parseCamelCase'', 1),
      (''trim'', 1), (''type'', 1), (''isUndefined'', 1), (''protect'', 2), (''getUID'', 1),
      (''noop'', 0), (''falsy'', 0), (''truthy'', 0)]"

definition method_ref :: "addr \<Rightarrow> string \<Rightarrow> jsval" where
  "method_ref b m = Ref (b + 4 + 2 * length (takeWhile (\<lambda>x. fst x \<noteq> m) methods))"

definition prototype_props :: "addr \<Rightarrow> bool \<Rightarrow> bool \<Rightarrow> jsval \<Rightarrow> jsval \<Rightarrow> (string \<times> jsval) list" where
  "prototype_props b debug domready window_each ie =
     [(''app'', Str ''@VERSION''),
      (''constructor'', Ref b),
      (''debug'', Bool debug),
      (''appready'', Bool False),
      (''domready'', Bool domready),
      (''data'', Ref (b + 3)),
      (''error'', method_ref b ''error''),
      (''ready'', method_ref b ''ready''),
      (''get'', method_ref b ''get''),
      (''set'', method_ref b ''set''),
      (''proxy'', method_ref b ''proxy''),
      (''each'', method_ref b ''each''),
      (''for'', window_each),
      (''forEach'', method_ref b ''forEach''),
      (''deepExtend'', method_ref b ''deepExtend''),
      (''extend'', method_ref b ''extend''),
      (''indexOf'', method_ref b ''indexOf''),
      (''isArray'', method_ref b ''isArray''),
      (''map'', method_ref b ''map''),
      (''now'', method_ref b ''now''),
      (''parseHtml'', method_ref b ''parseHtml''),
      (''parseJson'', method_ref b ''parseJson''),
      (''parseCamelCase'', method_ref b ''parseCamelCase''),
      (''trim'', method_ref b ''trim''),
      (''type'', method_ref b ''type''),
      (''isUndefined'', method_ref b ''isUndefined''),
      (''protect'', method_ref b ''protect''),
      (''getUID'', method_ref b ''getUID''),
      (''ie'', ie),
      (''noop'', method_ref b ''noop''),
      (''falsy'', method_ref b ''falsy''),
      (''truthy'', method_ref b ''truthy'')]"

fun method_objects :: "name_mode \<Rightarrow> addr \<Rightarrow> (string \<times> nat) list \<Rightarrow> jsobj list" where
  "method_objects m a [] = []"
| "method_objects m a ((k, n) # ms) = function_objects m a Native n k @ method_objects m (a + 2) ms"

definition module_objects ::
  "name_mode \<Rightarrow> addr \<Rightarrow> bool \<Rightarrow> bool \<Rightarrow> jsval \<Rightarrow> jsval \<Rightarrow> jsobj list" where
  "module_objects m b debug domready window_each ie =
     [\<lparr>props = [(''length'', Num 2)] @ name_prop m ''App'' @ [(''prototype'', Ref (b + 2))],
       proto = Some FunctionPrototype, code = Some Native\<rparr>,
      \<lparr>props = [(''constructor'', Ref b)], proto = Some ObjectPrototype, code = None\<rparr>,
      \<lparr>props = prototype_props b debug domready window_each ie,
       proto = Some ObjectPrototype, code = None\<rparr>,
      \<lparr>props = [], proto = Some ObjectPrototype, code = None\<rparr>]
     @ method_objects m (b + 4) methods"

text \<open>
  The state after the script has run on a page \<open>st\<close>: \<open>domready\<close> of the prototype is
  \<open>document.readyState !== 'loading'\<close> at that moment (line 154).
\<close>

definition load_script :: "state \<Rightarrow> bool \<Rightarrow> jsval \<Rightarrow> jsval \<Rightarrow> state" where
  "load_script st debug window_each ie =
     st\<lparr>heap := heap st @ module_objects (functionNames st) (length (heap st)) debug
                             (readyState st \<noteq> Loading) window_each ie,
        AppPrototype := length (heap st) + 2\<rparr>"

section \<open>Vocabulary of the properties\<close>

text \<open>
  Three ways in which a walk along the segments of a path can go, seen from the object where
  it starts. The path is \<open>present\<close> when every segment is found (\<open>in\<close> says yes at
  each step). It is \<open>absent\<close> when the walk comes to an object that lacks the next
  segment. Otherwise the walk comes to a value that is not an object while segments are left.
\<close>

fun present :: "heap \<Rightarrow> jsval \<Rightarrow> string list \<Rightarrow> bool" where
  "present h object [] = True"
| "present h object (key # rest) =
     (case object of
        Ref a \<Rightarrow> has_property h a key \<and> present h (get_property h a key) rest
      | _ \<Rightarrow> False)"

fun absent :: "heap \<Rightarrow> jsval \<Rightarrow> string list \<Rightarrow> bool" where
  "absent h object [] = False"
| "absent h object (key # rest) =
     (case object of
        Ref a \<Rightarrow> if has_property h a key then absent h (get_property h a key) rest else True
      | _ \<Rightarrow> False)"

text \<open>
  A path that \<open>set\<close> creates: it is absent, the object that lacks the segment is an
  allocated one other than \<open>Object.prototype\<close>, and no later segment is the name of a
  member of \<open>Object.prototype\<close> (a new \<open>{}\<close> inherits those).
\<close>

fun creatable :: "heap \<Rightarrow> jsval \<Rightarrow> string list \<Rightarrow> bool" where
  "creatable h object [] = False"
| "creatable h object (key # rest) =
     (case object of
        Ref a \<Rightarrow>
          if has_property h a key then creatable h (get_property h a key) rest
          else a < length h \<and> a \<noteq> ObjectPrototype
               \<and> list_all (\<lambda>k. \<not> has_property h ObjectPrototype k) rest
      | _ \<Rightarrow> False)"

text \<open>
  The recorded calls dispatched one after the other, in the order of the list, each from
  the state that the one before it left; a call that throws ends the sequence.
\<close>

fun dispatch_all :: "state \<Rightarrow> addr \<Rightarrow> jsval list list \<Rightarrow> (error + jsval) \<times> state" where
  "dispatch_all st self [] = (Inr Undefined, st)"
| "dispatch_all st self (item # items) =
     (case dispatch st self item of
        (Inl e, st') \<Rightarrow> (Inl e, st')
      | (Inr v, st') \<Rightarrow> dispatch_all st' self items)"

text \<open>Segments written as one string, with a dot between two of them.\<close>

fun join_dots :: "string list \<Rightarrow> string" where
  "join_dots [] = []"
| "join_dots [k] = k"
| "join_dots (k # ks) = k @ CHR ''.'' # join_dots ks"

text \<open>The calls of native functions that a list of deferred calls makes when it runs.\<close>

definition native_calls :: "heap \<Rightarrow> deferred list \<Rightarrow> (addr \<times> jsval list) list" where
  "native_calls h ds =
     concat (map (\<lambda>d. case fst d of
                         Ref f \<Rightarrow> if f < length h \<and> code (h ! f) = Some Native then [(f, snd d)] else []
                       | _ \<Rightarrow> []) ds)"

section \<open>A page for the examples\<close>

text \<open>
  The objects of a host of the generation of ECMAScript 5, with the members that the
  standard gives them and functions without a \<open>name\<close>: \<open>Object.prototype\<close> (0),
  \<open>Function.prototype\<close> (1), the constructors \<open>Object\<close> (2) and \<open>Function\<close> (3), the
  functions that the members refer to (4 to 26, each with its \<open>length\<close>), and a function
  of the page with one parameter (27, and 28 for its \<open>prototype\<close>). The host has no
  accessor \<open>__proto__\<close> on \<open>Object.prototype\<close>.
\<close>

definition builtin :: "int \<Rightarrow> jsobj" where
  "builtin n = \<lparr>props = [(''length'', Num n)], proto = Some FunctionPrototype, code = Some Native\<rparr>"

definition host_objects :: heap where
  "host_objects =
     [\<lparr>props = [(''constructor'', Ref 2), (''toString'', Ref 4), (''toLocaleString'', Ref 5),
                (''valueOf'', Ref 6), (''hasOwnProperty'', Ref 7), (''isPrototypeOf'', Ref 8),
                (''propertyIsEnumerable'', Ref 9)],
       proto = None, code = None\<rparr>,
      \<lparr>props = [(''length'', Num 0), (''constructor'', Ref 3), (''toString'', Ref 10),
                (''apply'', Ref 11), (''call'', Ref 12), (''bind'', Ref 13)],
       proto = Some ObjectPrototype, code = Some Native\<rparr>,
      \<lparr>props = [(''length'', Num 1), (''prototype'', Ref 0), (''getPrototypeOf'', Ref 14),
                (''getOwnPropertyDescriptor'', Ref 15), (''getOwnPropertyNames'', Ref 16),
                (''create'', Ref 17), (''defineProperty'', Ref 18), (''defineProperties'', Ref 19),
                (''seal'', Ref 20), (''freeze'', Ref 21), (''preventExtensions'', Ref 22),
                (''isSealed'', Ref 23), (''isFrozen'', Ref 24), (''isExtensible'', Ref 25),
                (''keys'', Ref 26)],
       proto = Some FunctionPrototype, code = Some Native\<rparr>,
      \<lparr>props = [(''length'', Num 1), (''prototype'', Ref 1)],
       proto = Some FunctionPrototype, code = Some Native\<rparr>,
      builtin 0, builtin 0, builtin 0, builtin 1, builtin 1, builtin 1,
      builtin 0, builtin 2, builtin 1, builtin 1,
      builtin 1, builtin 2, builtin 1, builtin 2, builtin 3, builtin 2, builtin 1, builtin 1,
      builtin 1, builtin 1, builtin 1, builtin 1, builtin 1]
     @ function_objects NoName 27 Native 1 []"

definition page_handler :: addr where
  "page_handler = 27"

text \<open>
  A page before the script runs, with a given \<open>readyState\<close>, with or without
  \<open>addEventListener\<close>, and with or without a placeholder named \<open>app\<close>.
\<close>

definition page :: "ready_state \<Rightarrow> bool \<Rightarrow> placeholder option \<Rightarrow> state" where
  "page rs ael l =
     \<lparr>heap = host_objects, readyState = rs, addEventListener = ael, domContentLoaded = [],
      onreadystatechange = [], timers = [], now = 1000, APP_LOADER_VAR = Undefined,
      window = (case l of None \<Rightarrow> [] | Some x \<Rightarrow> [(''app'', x)]), AppPrototype = 0,
      calls = [], functionNames = NoName\<rparr>"

definition loaded :: "ready_state \<Rightarrow> bool \<Rightarrow> placeholder option \<Rightarrow> state" where
  "loaded rs ael l = load_script (page rs ael l) False Undefined (Bool False)"

text \<open>
  The page with an empty queue after \<open>app = new App()\<close>: the script has the objects 29
  to 80, the store \<open>data\<close> is the object 32, the instance the object 81, and the closure
  that the constructor hands to \<open>ready\<close> the object 82.
\<close>

definition app_page :: state where
  "app_page = loaded Complete True (Some \<lparr>time = Num 900, queue = Some []\<rparr>)"

definition app :: addr where
  "app = 81"

definition app_data :: addr where
  "app_data = 32"

definition app_state :: state where
  "app_state = (case new_App 2 app_page [] of Some (r, st) \<Rightarrow> st | None \<Rightarrow> app_page)"

text \<open>The same after \<open>app.set('a', 1)\<close>: a number is stored under \<open>a\<close>.\<close>

definition scalar_state :: state where
  "scalar_state = snd (set_App app_state app (PathString ''a'') (Num 1))"

text \<open>A page whose placeholder holds the recorded calls \<open>q\<close>.\<close>

definition queue_page :: "ready_state \<Rightarrow> bool \<Rightarrow> jsval list list \<Rightarrow> state" where
  "queue_page rs ael q = loaded rs ael (Some \<lparr>time = Num 900, queue = Some q\<rparr>)"

section \<open>Properties of the heap operations\<close>

lemma length_put_property [simp]: "length (put_property h a k v) = length h"
  by (simp add: put_property_def)

lemma lookup_chain_append:
  "a < length h \<Longrightarrow> lookup_chain (h @ h') a k = lookup_chain h a k"
proof (induction h a k rule: lookup_chain.induct)
  case (1 h a k)
  show ?case
  proof (cases "map_of (props (h ! a)) k")
    case None
    show ?thesis
    proof (cases "proto (h ! a)")
      case pn: None
      with None "1.prems" show ?thesis
        by (simp add: lookup_chain.simps [of "h @ h'" a k] lookup_chain.simps [of h a k] nth_append)
    next
      case (Some p)
      show ?thesis
      proof (cases "p < a")
        case True
        with Some None "1.prems" have "lookup_chain (h @ h') p k = lookup_chain h p k"
          using "1.IH" [of p] by simp
        with True Some None "1.prems" show ?thesis
          by (simp add: lookup_chain.simps [of "h @ h'" a k] lookup_chain.simps [of h a k] nth_append)
      next
        case False
        with Some None "1.prems" show ?thesis
          by (simp add: lookup_chain.simps [of "h @ h'" a k] lookup_chain.simps [of h a k] nth_append)
      qed
    qed
  next
    case (Some v)
    with "1.prems" show ?thesis
      by (simp add: lookup_chain.simps [of "h @ h'" a k] lookup_chain.simps [of h a k] nth_append)
  qed
qed

lemma lookup_chain_put_same:
  "b < length h \<Longrightarrow> lookup_chain (put_property h b k v) b k = Some v"
  by (subst lookup_chain.simps) (simp add: put_property_def update_conv')

text \<open>A put under another key leaves every lookup as it is.\<close>
lemma lookup_chain_put_other_key:
  "k \<noteq> k' \<Longrightarrow> lookup_chain (put_property h b k' w) a k = lookup_chain h a k"
proof (induction h a k rule: lookup_chain.induct)
  case (1 h a k)
  have own: "a < length h \<Longrightarrow> map_of (props (put_property h b k' w ! a)) k = map_of (props (h ! a)) k"
    using "1.prems" by (cases "a = b") (simp_all add: put_property_def update_conv')
  have pr: "a < length h \<Longrightarrow> proto (put_property h b k' w ! a) = proto (h ! a)"
    by (cases "a = b") (simp_all add: put_property_def)
  show ?case
  proof (cases "a < length h")
    case False
    then show ?thesis
      by (simp add: lookup_chain.simps [of "put_property h b k' w" a k] lookup_chain.simps [of h a k])
  next
    case True
    show ?thesis
    proof (cases "map_of (props (h ! a)) k")
      case (Some v)
      with True own show ?thesis
        by (simp add: lookup_chain.simps [of "put_property h b k' w" a k] lookup_chain.simps [of h a k])
    next
      case None
      show ?thesis
      proof (cases "proto (h ! a)")
        case pn: None
        with None True own pr show ?thesis
          by (simp add: lookup_chain.simps [of "put_property h b k' w" a k] lookup_chain.simps [of h a k])
      next
        case (Some p)
        show ?thesis
        proof (cases "p < a")
          case pa: True
          with Some None True "1.prems" have "lookup_chain (put_property h b k' w) p k = lookup_chain h p k"
            using "1.IH" [of p] by simp
          with pa Some None True own pr show ?thesis
            by (simp add: lookup_chain.simps [of "put_property h b k' w" a k] lookup_chain.simps [of h a k])
        next
          case False
          with Some None True own pr show ?thesis
            by (simp add: lookup_chain.simps [of "put_property h b k' w" a k] lookup_chain.simps [of h a k])
        qed
      qed
    qed
  qed
qed

text \<open>A put of a key that the chain of the receiver lacks leaves every lookup that finds a
  value as it is.\<close>
lemma lookup_chain_put_absent:
  "lookup_chain h b k' = None \<Longrightarrow> lookup_chain h a k = Some v
    \<Longrightarrow> lookup_chain (put_property h b k' w) a k = Some v"
proof (induction h a k rule: lookup_chain.induct)
  case (1 h a k)
  from "1.prems"(2) have al: "a < length h"
    by (simp add: lookup_chain.simps [of h a k] split: if_splits)
  show ?case
  proof (cases "k = k'")
    case False
    with "1.prems" show ?thesis by (simp add: lookup_chain_put_other_key)
  next
    case kk: True
    have ab: "a \<noteq> b" using "1.prems" kk by auto
    then have own: "put_property h b k' w ! a = h ! a"
      by (simp add: put_property_def)
    show ?thesis
    proof (cases "map_of (props (h ! a)) k")
      case (Some u)
      with al own "1.prems"(2) show ?thesis
        by (simp add: lookup_chain.simps [of "put_property h b k' w" a k] lookup_chain.simps [of h a k])
    next
      case None
      show ?thesis
      proof (cases "proto (h ! a)")
        case pn: None
        with None al "1.prems"(2) show ?thesis
          by (simp add: lookup_chain.simps [of h a k])
      next
        case (Some p)
        show ?thesis
        proof (cases "p < a")
          case pa: True
          with Some None al "1.prems"(2) have "lookup_chain h p k = Some v"
            by (simp add: lookup_chain.simps [of h a k])
          with pa Some None al "1.prems"(1) have "lookup_chain (put_property h b k' w) p k = Some v"
            using "1.IH" [of p] by simp
          with pa Some None al own show ?thesis
            by (simp add: lookup_chain.simps [of "put_property h b k' w" a k])
        next
          case False
          with Some None al "1.prems"(2) show ?thesis
            by (simp add: lookup_chain.simps [of h a k])
        qed
      qed
    qed
  qed
qed


lemma lookup_chain_put_above:
  "a < b \<Longrightarrow> lookup_chain (put_property h b k' w) a k = lookup_chain h a k"
proof (induction h a k rule: lookup_chain.induct)
  case (1 h a k)
  have own: "put_property h b k' w ! a = h ! a"
    using "1.prems" by (simp add: put_property_def)
  show ?case
  proof (cases "a < length h \<and> map_of (props (h ! a)) k = None \<and> (\<exists>p. proto (h ! a) = Some p \<and> p < a)")
    case True
    then obtain p where p: "proto (h ! a) = Some p" "p < a" by blast
    with True "1.prems" have "lookup_chain (put_property h b k' w) p k = lookup_chain h p k"
      using "1.IH" [of p] by simp
    with True p own show ?thesis
      by (subst lookup_chain.simps, subst (2) lookup_chain.simps) simp
  next
    case False
    with own show ?thesis
      by (subst lookup_chain.simps, subst (2) lookup_chain.simps) (auto split: option.splits)
  qed
qed

lemma lookup_chain_put_keeps:
  assumes "lookup_chain h a k = Some v" and "lookup_chain h b k' = None \<or> a < b"
  shows "lookup_chain (put_property h b k' w) a k = Some v"
  using assms by (auto simp: lookup_chain_put_absent lookup_chain_put_above)

lemma lookup_chain_Some_length: "lookup_chain h a k = Some v \<Longrightarrow> a < length h"
  by (subst (asm) lookup_chain.simps) (simp split: if_splits)

lemma getOrSet_loop_read_only:
  "create \<noteq> Bool True \<Longrightarrow> snd (getOrSet_loop h object ks value create) = h"
  by (induction ks arbitrary: object) (auto split: jsval.splits)

lemma getOrSet_loop_keeps:
  "lookup_chain h a k = Some v
    \<Longrightarrow> lookup_chain (snd (getOrSet_loop h object ks value create)) a k = Some v"
proof (induction ks arbitrary: h object)
  case Nil
  then show ?case by simp
next
  case (Cons key rest)
  note al = lookup_chain_Some_length [OF Cons.prems]
  show ?case
  proof (cases object)
    case (Ref b)
    show ?thesis
    proof (cases "\<not> has_property h b key \<and> create = Bool True")
      case creating: True
      then have none: "lookup_chain h b key = None" by (simp add: has_property_def)
      show ?thesis
      proof (cases "rest = []")
        case True
        have "lookup_chain (put_property h b key value) a k = Some v"
          using Cons.prems none by (rule_tac lookup_chain_put_keeps) auto
        with True creating Ref show ?thesis by simp
      next
        case False
        let ?h1 = "h @ [\<lparr>props = [], proto = Some ObjectPrototype, code = None\<rparr>]"
        have 1: "lookup_chain ?h1 a k = Some v"
          using Cons.prems al by (simp add: lookup_chain_append)
        have 2: "lookup_chain ?h1 b key = None \<or> a < b"
        proof (cases "b < length h")
          case True
          with none show ?thesis by (simp add: lookup_chain_append)
        next
          case False
          with al show ?thesis by simp
        qed
        have "lookup_chain (put_property ?h1 b key (Ref (length h))) a k = Some v"
          using 1 2 by (rule lookup_chain_put_keeps)
        from Cons.IH [OF this] False creating Ref show ?thesis
          by (simp add: new_object_def)
      qed
    next
      case False
      with Cons Ref show ?thesis by auto
    qed
  qed (use Cons.prems in simp_all)
qed

lemma getOrSet_loop_length:
  "length h \<le> length (snd (getOrSet_loop h object ks value create))"
proof (induction ks arbitrary: h object)
  case Nil
  then show ?case by simp
next
  case (Cons key rest)
  show ?case
  proof (cases object)
    case (Ref b)
    let ?h1 = "put_property h b key value"
    let ?h2 = "put_property (h @ [\<lparr>props = [], proto = Some ObjectPrototype, code = None\<rparr>]) b key (Ref (length h))"
    have a: "length h \<le> length (snd (getOrSet_loop ?h1 (get_property ?h1 b key) rest value create))"
      using Cons.IH [of ?h1 "get_property ?h1 b key"] by simp
    have b: "length h \<le> length (snd (getOrSet_loop ?h2 (get_property ?h2 b key) rest value create))"
      using Cons.IH [of ?h2 "get_property ?h2 b key"] by simp
    from a b Cons.IH [of h "get_property h b key"] Ref show ?thesis
      by (auto simp: new_object_def)
  qed simp_all
qed


section \<open>Reading a path\<close>

lemma getOrSet_loop_not_present:
  "\<not> present h object ks \<Longrightarrow> create \<noteq> Bool True
    \<Longrightarrow> getOrSet_loop h object ks value create
        = (if absent h object ks then Inr value else Inl TypeError, h)"
  by (induction ks arbitrary: object) (auto split: jsval.splits)

text \<open>
  What \<open>get(P, D)\<close> does for a path that is not present: it leaves the state as it is; it
  returns \<open>D\<close> when the walk comes to an object that lacks the next segment, and it throws
  when the walk comes to a stored value that is not an object while segments are left.
\<close>

lemma get_missing_path:
  assumes "\<not> present (heap st) (Ref this) (path_segments P)"
  shows "get st this P D
         = (if absent (heap st) (Ref this) (path_segments P) then Inr D else Inl TypeError, st)"
  using getOrSet_loop_not_present [OF assms, of Undefined D]
  by (simp add: get_def getOrSet_def)

text \<open>On the example page \<open>get('user.age', 0)\<close> gives 0.\<close>

lemma get_missing_path_example:
  "\<not> present (heap app_state) (Ref app) (path_segments (PathString ''user.age''))
   \<and> get app_state app (PathString ''user.age'') (Num 0) = (Inr (Num 0), app_state)"
proof -
  have p: "\<not> present (heap app_state) (Ref app) (path_segments (PathString ''user.age''))"
    by code_simp
  have a: "absent (heap app_state) (Ref app) (path_segments (PathString ''user.age''))"
    by code_simp
  from get_missing_path [OF p, of "Num 0"] a p show ?thesis by simp
qed

text \<open>
  C3: for every path that is not present in the store, \<open>get(P, D)\<close> is to return \<open>D\<close>
  without throwing and to leave the store unchanged. The code does not: after
  \<open>set('a', 1)\<close> the path \<open>a.b\<close> is not present, and \<open>get('a.b', 0)\<close> throws a
  TypeError (line 68 applies \<open>in\<close> to the number) where the claim, and the comment of
  lines 51-53, have it return the default 0.
\<close>

theorem get_through_scalar_throws:
  "\<not> present (heap scalar_state) (Ref app) (path_segments (PathString ''a.b''))
   \<and> get scalar_state app (PathString ''a.b'') (Num 0) = (Inl TypeError, scalar_state)"
  by code_simp

section \<open>Writing a path and reading it back\<close>

lemma lookup_chain_bottom:
  "lookup_chain h 0 k = (if 0 < length h then map_of (props (h ! 0)) k else None)"
  by (subst lookup_chain.simps) (simp split: option.splits)

text \<open>
  From an object that lacks the first segment, \<open>set\<close> builds the whole chain of new
  objects and stores the value at its end; the same walk then finds it.
\<close>

lemma create_walk:
  assumes "a < length h" and "a \<noteq> 0" and "lookup_chain h a k = None"
    and "list_all (\<lambda>k'. lookup_chain h 0 k' = None) ks"
  shows "\<exists>h'. getOrSet_loop h (Ref a) (k # ks) V (Bool True) = (Inr V, h')
              \<and> getOrSet_loop h' (Ref a) (k # ks) D c = (Inr V, h')"
  using assms
proof (induction ks arbitrary: h a k)
  case Nil
  then show ?case
    by (simp add: has_property_def get_property_def lookup_chain_put_same)
next
  case (Cons k2 ks)
  let ?n = "length h"
  let ?h1 = "h @ [\<lparr>props = [], proto = Some ObjectPrototype, code = None\<rparr>]"
  let ?h2 = "put_property ?h1 a k (Ref ?n)"
  have pos: "0 < length h" using Cons.prems(1) by (cases h) simp_all
  have h20: "?h2 ! 0 = h ! 0"
    using Cons.prems(2) pos by (simp add: put_property_def nth_append)
  have bottom: "lookup_chain ?h2 0 k' = lookup_chain h 0 k'" for k'
    using pos h20 by (simp add: lookup_chain_bottom)
  have fresh: "?h2 ! ?n = \<lparr>props = [], proto = Some ObjectPrototype, code = None\<rparr>"
    using Cons.prems by (simp add: put_property_def)
  have "lookup_chain ?h2 ?n k2 = lookup_chain ?h2 0 k2"
    using pos fresh by (subst lookup_chain.simps) (simp add: ObjectPrototype_def)
  with bottom Cons.prems have n_none: "lookup_chain ?h2 ?n k2 = None" by simp
  have rest: "list_all (\<lambda>k'. lookup_chain ?h2 0 k' = None) ks"
    using Cons.prems bottom by simp
  have "?n < length ?h2" "?n \<noteq> 0" using pos by auto
  from Cons.IH [OF this n_none rest]
  obtain h' where h': "getOrSet_loop ?h2 (Ref ?n) (k2 # ks) V (Bool True) = (Inr V, h')"
    "getOrSet_loop h' (Ref ?n) (k2 # ks) D c = (Inr V, h')" by blast
  have at_a: "lookup_chain ?h2 a k = Some (Ref ?n)"
    using Cons.prems by (simp add: lookup_chain_put_same)
  have "lookup_chain (snd (getOrSet_loop ?h2 (Ref ?n) (k2 # ks) V (Bool True))) a k = Some (Ref ?n)"
    using at_a by (rule getOrSet_loop_keeps)
  with h' have kept: "lookup_chain h' a k = Some (Ref ?n)" by simp
  have set: "getOrSet_loop h (Ref a) (k # k2 # ks) V (Bool True) = (Inr V, h')"
    using Cons.prems at_a h'(1)
    by (simp add: has_property_def get_property_def new_object_def del: getOrSet_loop.simps(2))
      (simp add: has_property_def get_property_def new_object_def)
  have get: "getOrSet_loop h' (Ref a) (k # k2 # ks) D c = (Inr V, h')"
    using kept h'(2) by (simp add: has_property_def get_property_def)
  from set get show ?case by blast
qed

lemma roundtrip_loop:
  "creatable h object ks
    \<Longrightarrow> \<exists>h'. getOrSet_loop h object ks V (Bool True) = (Inr V, h')
              \<and> getOrSet_loop h' object ks D c = (Inr V, h')"
proof (induction ks arbitrary: object)
  case Nil
  then show ?case by simp
next
  case (Cons k rest)
  then obtain a where obj: "object = Ref a" by (cases object) simp_all
  show ?case
  proof (cases "has_property h a k")
    case True
    then obtain v where v: "lookup_chain h a k = Some v"
      by (auto simp: has_property_def)
    with True Cons.prems obj have "creatable h v rest"
      by (simp add: get_property_def)
    from Cons.IH [OF this] obtain h' where
      h': "getOrSet_loop h v rest V (Bool True) = (Inr V, h')"
          "getOrSet_loop h' v rest D c = (Inr V, h')" by blast
    have "lookup_chain (snd (getOrSet_loop h v rest V (Bool True))) a k = Some v"
      using v by (rule getOrSet_loop_keeps)
    with h' have kept: "lookup_chain h' a k = Some v" by simp
    have "getOrSet_loop h object (k # rest) V (Bool True) = (Inr V, h')"
      using True v h'(1) obj by (simp add: get_property_def)
    moreover have "getOrSet_loop h' object (k # rest) D c = (Inr V, h')"
      using kept h'(2) obj by (simp add: has_property_def get_property_def)
    ultimately show ?thesis by blast
  next
    case False
    with Cons.prems obj have a: "a < length h" "a \<noteq> 0"
      and rest: "list_all (\<lambda>k'. lookup_chain h 0 k' = None) rest"
      by (simp_all add: ObjectPrototype_def has_property_def)
    from False have "lookup_chain h a k = None" by (simp add: has_property_def)
    from create_walk [OF a this rest] obj show ?thesis by simp
  qed
qed

text \<open>
  C1, as the code has it. When \<open>set(P, V)\<close> creates the path (the walk comes to an object
  that lacks the next segment, and the segments behind it are not names that a new object
  inherits), it returns \<open>V\<close>, and \<open>get(P, D)\<close> on the state that it leaves returns
  \<open>V\<close> for every default \<open>D\<close> and changes nothing.
\<close>

theorem set_then_get:
  assumes "creatable (heap st) (Ref this) (path_segments P)"
  shows "fst (set_App st this P V) = Inr V
         \<and> get (snd (set_App st this P V)) this P D = (Inr V, snd (set_App st this P V))"
proof -
  from roundtrip_loop [OF assms, of V D Undefined]
  obtain h' where h': "getOrSet_loop (heap st) (Ref this) (path_segments P) V (Bool True) = (Inr V, h')"
    "getOrSet_loop h' (Ref this) (path_segments P) D Undefined = (Inr V, h')" by blast
  then have "set_App st this P V = (Inr V, st\<lparr>heap := h'\<rparr>)"
    and "get (st\<lparr>heap := h'\<rparr>) this P D = (Inr V, st\<lparr>heap := h'\<rparr>)"
    by (simp_all add: set_App_def get_def getOrSet_def)
  then show ?thesis by simp
qed

text \<open>On the example page: \<open>set('user.name', 'Ada')\<close>, then \<open>get('user.name')\<close>.\<close>

theorem set_then_get_witness:
  "creatable (heap app_state) (Ref app) (path_segments (PathString ''user.name''))
   \<and> fst (set_App app_state app (PathString ''user.name'') (Str ''Ada'')) = Inr (Str ''Ada'')
   \<and> fst (get (snd (set_App app_state app (PathString ''user.name'') (Str ''Ada''))) app
             (PathString ''user.name'') Undefined) = Inr (Str ''Ada'')"
proof -
  have c: "creatable (heap app_state) (Ref app) (path_segments (PathString ''user.name''))"
    by code_simp
  from set_then_get [OF c, of "Str ''Ada''" Undefined] c show ?thesis by simp
qed

text \<open>
  C1 as stated fails when a value is already stored at the path: after \<open>set('a', 1)\<close>,
  \<open>set('a', 2)\<close> writes nothing and returns the old value 1, and \<open>get('a')\<close> gives 1.
\<close>

theorem set_keeps_old_value:
  "set_App scalar_state app (PathString ''a'') (Num 2) = (Inr (Num 1), scalar_state)
   \<and> get scalar_state app (PathString ''a'') Undefined = (Inr (Num 1), scalar_state)"
  by code_simp

section \<open>The constructor: marking, replay and dispatch\<close>

lemma ready_frame [simp]:
  "heap (ready st arguments) = heap st" "calls (ready st arguments) = calls st"
  "window (ready st arguments) = window st" "APP_LOADER_VAR (ready st arguments) = APP_LOADER_VAR st"
  by (simp_all add: ready_def readyFn_def Let_def)

lemma heap_dispatch:
  "heap (snd (dispatch st self arguments))
   = (case arg arguments 0 of
        Str s \<Rightarrow> snd (getOrSet (heap st) (get_property (heap st) self ''data'')
                        (PathString (toLowerCase s))
                        (if typeof (heap st) (arg arguments 1) \<noteq> ''undefined'' then arg arguments 1 else Undefined)
                        (Bool (typeof (heap st) (arg arguments 1) \<noteq> ''undefined'')))
      | _ \<Rightarrow> heap st)"
  by (simp add: dispatch_def Let_def split_beta split: jsval.splits)

lemma dispatch_keeps:
  "lookup_chain (heap st) a k = Some v
    \<Longrightarrow> lookup_chain (heap (snd (dispatch st self arguments))) a k = Some v"
  by (simp add: heap_dispatch getOrSet_def getOrSet_loop_keeps split: jsval.splits)

lemma calls_dispatch [simp]: "calls (snd (dispatch st self arguments)) = calls st"
  by (simp add: dispatch_def Let_def split_beta split: jsval.splits)

declare App.simps(2) [simp del]

lemma App_later:
  "get_property (heap st) self ''appready'' \<noteq> Bool False
    \<Longrightarrow> App (Suc n) st self arguments = Some (dispatch st self arguments)"
  by (simp add: App.simps(2) Let_def)

lemma App_first:
  "get_property (heap st) self ''appready'' = Bool False
    \<Longrightarrow> map_of (window st) (loader_name st) = Some l
    \<Longrightarrow> App (Suc n) st self arguments
        = (case each (queue l) (\<lambda>item i s. App n s self item) (init_head st self) of
             None \<Rightarrow> None
           | Some (Inl e, st') \<Rightarrow> Some (Inl e, st')
           | Some (Inr v, st') \<Rightarrow> Some (dispatch st' self arguments))"
  by (subst App.simps(2)) (simp add: Let_def)

lemma App_no_placeholder:
  "get_property (heap st) self ''appready'' = Bool False
    \<Longrightarrow> map_of (window st) (loader_name st) = None
    \<Longrightarrow> App (Suc n) st self arguments
        = Some (Inl TypeError,
            st\<lparr>heap := put_property (put_property (heap st) self ''time'' (Num (now st)))
                           self ''appready'' (Bool True)\<rparr>)"
  by (subst App.simps(2)) (simp add: Let_def)

lemma each_loop_invariant:
  assumes step: "\<And>x i s r s'. iteratee x i s = Some (r, s') \<Longrightarrow> P s \<Longrightarrow> P s'"
  shows "each_loop i xs iteratee s = Some (r, s') \<Longrightarrow> P s \<Longrightarrow> P s'"
proof (induction xs arbitrary: i s)
  case Nil
  then show ?case by simp
next
  case (Cons x xs)
  from Cons.prems(1) obtain r0 s0 where it: "iteratee x i s = Some (r0, s0)"
    by (cases "iteratee x i s") auto
  from step [OF it Cons.prems(2)] have P0: "P s0" .
  show ?case
  proof (cases r0)
    case (Inl e)
    with it Cons.prems(1) P0 show ?thesis by simp
  next
    case (Inr v)
    with it Cons.prems(1) have "each_loop (i + 1) xs iteratee s0 = Some (r, s')" by simp
    from Cons.IH [OF this P0] show ?thesis .
  qed
qed

lemma dispatch_all_keeps:
  "lookup_chain (heap st) a k = Some v
    \<Longrightarrow> lookup_chain (heap (snd (dispatch_all st self items))) a k = Some v"
proof (induction items arbitrary: st)
  case Nil
  then show ?case by simp
next
  case (Cons item items)
  obtain r s where d: "dispatch st self item = (r, s)" by (cases "dispatch st self item")
  with dispatch_keeps [OF Cons.prems, of self item] have s: "lookup_chain (heap s) a k = Some v"
    by simp
  from Cons.IH [OF s] s d show ?case by (cases r) simp_all
qed

text \<open>During the replay the object is marked ready, so each replayed call is dispatched.\<close>

lemma each_loop_replay:
  "lookup_chain (heap s) self ''appready'' = Some (Bool True)
    \<Longrightarrow> each_loop i items (\<lambda>item i s. App (Suc n) s self item) s
        = Some (dispatch_all s self items)"
proof (induction items arbitrary: i s)
  case Nil
  then show ?case by simp
next
  case (Cons item items)
  have later: "App (Suc n) s self item = Some (dispatch s self item)"
    using Cons.prems by (intro App_later) (simp add: get_property_def)
  obtain r s0 where d: "dispatch s self item = (r, s0)" by (cases "dispatch s self item")
  with dispatch_keeps [OF Cons.prems, of self item]
  have "lookup_chain (heap s0) self ''appready'' = Some (Bool True)" by simp
  from Cons.IH [OF this] later d show ?case by (cases r) simp_all
qed

lemma init_head_marks:
  "self < length (heap st)
    \<Longrightarrow> lookup_chain (heap (init_head st self)) self ''appready'' = Some (Bool True)"
  by (simp add: init_head_def Let_def new_function_def lookup_chain_append lookup_chain_put_same)

text \<open>
  The constructor returns: on an allocated object a depth of two calls is always enough,
  whatever the state, the placeholder and the arguments.
\<close>

lemma App_returns:
  assumes "self < length (heap st)"
  shows "\<exists>res. App (Suc (Suc n)) st self arguments = Some res"
proof (cases "get_property (heap st) self ''appready'' = Bool False")
  case False
  then show ?thesis by (simp add: App_later)
next
  case first: True
  show ?thesis
  proof (cases "map_of (window st) (loader_name st)")
    case None
    from App_no_placeholder [OF first None] show ?thesis by simp
  next
    case (Some l)
    have "\<exists>res. each (queue l) (\<lambda>item i s. App (Suc n) s self item) (init_head st self) = Some res"
      using init_head_marks [OF assms] by (cases "queue l") (simp_all add: each_def each_loop_replay)
    then show ?thesis
      using App_first [OF first Some, of "Suc n" arguments]
      by (auto split: prod.splits sum.splits)
  qed
qed

lemma init_head_keeps:
  assumes "lookup_chain (heap st) a k = Some v" and "k \<noteq> ''time''" and "k \<noteq> ''appready''"
  shows "lookup_chain (heap (init_head st self)) a k = Some v"
proof -
  have "a < length (heap st)" using assms(1) by (rule lookup_chain_Some_length)
  with assms show ?thesis
    by (simp add: init_head_def Let_def new_function_def lookup_chain_append
        lookup_chain_put_other_key)
qed

text \<open>After a call of the constructor on an allocated object the object is marked ready.\<close>

lemma App_marks:
  assumes "App n st self arguments = Some (r, st')" and "self < length (heap st)"
    and "get_property (heap st) self ''appready'' = Bool False
         \<or> lookup_chain (heap st) self ''appready'' = Some (Bool True)"
  shows "lookup_chain (heap st') self ''appready'' = Some (Bool True)"
proof -
  let ?P = "\<lambda>s. lookup_chain (heap s) self ''appready'' = Some (Bool True)"
  have later: "\<And>m s args r s'. App m s self args = Some (r, s') \<Longrightarrow> ?P s \<Longrightarrow> ?P s'"
  proof -
    fix m s args r s'
    assume a: "App m s self args = Some (r, s')" and p: "?P s"
    from a obtain m' where m: "m = Suc m'" by (cases m) simp_all
    from p have "get_property (heap s) self ''appready'' \<noteq> Bool False"
      by (simp add: get_property_def)
    from App_later [OF this, of m' args] a m have "s' = snd (dispatch s self args)" by simp
    with dispatch_keeps [OF p, of self args] show "?P s'" by simp
  qed
  from assms(3) show ?thesis
  proof
    assume "lookup_chain (heap st) self ''appready'' = Some (Bool True)"
    with later [OF assms(1)] show ?thesis by simp
  next
    assume first: "get_property (heap st) self ''appready'' = Bool False"
    from assms(1) obtain m where n: "n = Suc m" by (cases n) simp_all
    show ?thesis
    proof (cases "map_of (window st) (loader_name st)")
      case None
      from App_no_placeholder [OF first None, of m arguments] assms(1,2) n show ?thesis
        by (auto simp: lookup_chain_put_same)
    next
      case (Some l)
      note unfold = App_first [OF first Some, of m arguments]
      from unfold assms(1) n obtain r0 s0 where
        e: "each (queue l) (\<lambda>item i s. App m s self item) (init_head st self) = Some (r0, s0)"
        by (cases "each (queue l) (\<lambda>item i s. App m s self item) (init_head st self)") auto
      have P0: "?P s0"
      proof (cases "queue l")
        case None
        with e init_head_marks [OF assms(2)] show ?thesis by (simp add: each_def)
      next
        case (Some items)
        with e have "each_loop 0 items (\<lambda>item i s. App m s self item) (init_head st self) = Some (r0, s0)"
          by (simp add: each_def)
        from each_loop_invariant [where P = ?P, OF _ this init_head_marks [OF assms(2)]] later
        show ?thesis by blast
      qed
      show ?thesis
      proof (cases r0)
        case (Inl e0)
        with unfold e assms(1) n P0 show ?thesis by simp
      next
        case (Inr v0)
        with unfold e assms(1) n have "st' = snd (dispatch s0 self arguments)" by simp
        with dispatch_keeps [OF P0, of self arguments] show ?thesis by simp
      qed
    qed
  qed
qed

text \<open>From the head of a first construction on, every lookup that finds a value keeps it.\<close>

lemma App_first_keeps:
  assumes run: "App n st self arguments = Some (r, st')" and alloc: "self < length (heap st)"
    and first: "get_property (heap st) self ''appready'' = Bool False"
    and head: "lookup_chain (put_property (put_property (heap st) self ''time'' (Num (now st)))
                 self ''appready'' (Bool True)) a k = Some v"
  shows "lookup_chain (heap st') a k = Some v"
proof -
  let ?P = "\<lambda>s. lookup_chain (heap s) self ''appready'' = Some (Bool True)
                \<and> lookup_chain (heap s) a k = Some v"
  have later: "\<And>m s args r s'. App m s self args = Some (r, s') \<Longrightarrow> ?P s \<Longrightarrow> ?P s'"
  proof -
    fix m s args r s'
    assume a: "App m s self args = Some (r, s')" and p: "?P s"
    from a obtain m' where m: "m = Suc m'" by (cases m) simp_all
    from p have "get_property (heap s) self ''appready'' \<noteq> Bool False"
      by (simp add: get_property_def)
    from App_later [OF this, of m' args] a m have "s' = snd (dispatch s self args)"
      by (auto simp: prod_eq_iff)
    with p show "?P s'" by (simp add: dispatch_keeps)
  qed
  from run obtain m where n: "n = Suc m" by (cases n) simp_all
  show ?thesis
  proof (cases "map_of (window st) (loader_name st)")
    case None
    from App_no_placeholder [OF first None, of m arguments] run n head show ?thesis
      by auto
  next
    case (Some l)
    note unfold = App_first [OF first Some, of m arguments]
    have al: "a < length (heap st)" using lookup_chain_Some_length [OF head] by simp
    have Pi: "?P (init_head st self)"
      using init_head_marks [OF alloc] head al
      by (simp add: init_head_def Let_def new_function_def lookup_chain_append)
    from unfold run n obtain r0 s0 where
      e: "each (queue l) (\<lambda>item i s. App m s self item) (init_head st self) = Some (r0, s0)"
      by (cases "each (queue l) (\<lambda>item i s. App m s self item) (init_head st self)") auto
    have P0: "?P s0"
    proof (cases "queue l")
      case None
      with e Pi show ?thesis by (simp add: each_def)
    next
      case (Some items)
      with e have "each_loop 0 items (\<lambda>item i s. App m s self item) (init_head st self) = Some (r0, s0)"
        by (simp add: each_def)
      from each_loop_invariant [where P = ?P, OF _ this Pi] later
      show ?thesis by blast
    qed
    show ?thesis
    proof (cases r0)
      case (Inl e0)
      with unfold e run n P0 show ?thesis by simp
    next
      case (Inr v0)
      with unfold e run n have "st' = snd (dispatch s0 self arguments)"
        by (auto simp: prod_eq_iff)
      with P0 show ?thesis by (simp add: dispatch_keeps)
    qed
  qed
qed


lemma App_keeps:
  "App n st self arguments = Some (r, st') \<Longrightarrow> lookup_chain (heap st) a k = Some v
    \<Longrightarrow> k \<noteq> ''time'' \<Longrightarrow> k \<noteq> ''appready''
    \<Longrightarrow> lookup_chain (heap st') a k = Some v"
proof (induction n arbitrary: st arguments r st')
  case 0
  then show ?case by simp
next
  case (Suc n)
  let ?P = "\<lambda>s. lookup_chain (heap s) a k = Some v"
  show ?case
  proof (cases "get_property (heap st) self ''appready'' = Bool False")
    case False
    from App_later [OF False, of n arguments] Suc.prems(1)
    have "st' = snd (dispatch st self arguments)" by (auto simp: prod_eq_iff)
    with dispatch_keeps [OF Suc.prems(2), of self arguments] show ?thesis by simp
  next
    case first: True
    show ?thesis
    proof (cases "map_of (window st) (loader_name st)")
      case None
      from App_no_placeholder [OF first None, of n arguments] Suc.prems show ?thesis
        by (auto simp: lookup_chain_put_other_key)
    next
      case (Some l)
      note unfold = App_first [OF first Some, of n arguments]
      from unfold Suc.prems(1) obtain r0 s0 where
        e: "each (queue l) (\<lambda>item i s. App n s self item) (init_head st self) = Some (r0, s0)"
        by (cases "each (queue l) (\<lambda>item i s. App n s self item) (init_head st self)") auto
      note P_init = init_head_keeps [OF Suc.prems(2,3,4), of self]
      have P0: "?P s0"
      proof (cases "queue l")
        case None
        with e P_init show ?thesis by (simp add: each_def)
      next
        case (Some items)
        with e have "each_loop 0 items (\<lambda>item i s. App n s self item) (init_head st self) = Some (r0, s0)"
          by (simp add: each_def)
        from each_loop_invariant [where P = ?P, OF _ this P_init] Suc.IH Suc.prems(3,4)
        show ?thesis by blast
      qed
      show ?thesis
      proof (cases r0)
        case (Inl e0)
        with unfold e Suc.prems(1) P0 show ?thesis by simp
      next
        case (Inr v0)
        with unfold e Suc.prems(1) have "st' = snd (dispatch s0 self arguments)"
          by (auto simp: prod_eq_iff)
        with dispatch_keeps [OF P0, of self arguments] show ?thesis by simp
      qed
    qed
  qed
qed

text \<open>
  C2, as the code has it. The mark \<open>appready\<close> is written on the object that the
  constructor runs on. The first call on an object returns (a value or an exception), and
  after it every later call on that object is the dispatch of lines 125-134 and nothing
  else: no replay, no handler for the document, and the result does not depend on what the
  placeholders hold by then.
\<close>

theorem constructed_once:
  assumes "get_property (heap st) self ''appready'' = Bool False"
    and "self < length (heap st)"
  shows "\<exists>r st1. App (Suc (Suc n)) st self arguments = Some (r, st1)
           \<and> (\<forall>m w arguments'.
                 App (Suc m) (st1\<lparr>window := w\<rparr>) self arguments'
                 = Some (dispatch (st1\<lparr>window := w\<rparr>) self arguments'))"
proof -
  from App_returns [OF assms(2), of n arguments]
  obtain r st1 where run: "App (Suc (Suc n)) st self arguments = Some (r, st1)" by auto
  from App_marks [OF run assms(2)] assms(1)
  have "lookup_chain (heap st1) self ''appready'' = Some (Bool True)" by simp
  then have "get_property (heap (st1\<lparr>window := w\<rparr>)) self ''appready'' \<noteq> Bool False" for w
    by (simp add: get_property_def)
  then have "App (Suc m) (st1\<lparr>window := w\<rparr>) self arguments'
             = Some (dispatch (st1\<lparr>window := w\<rparr>) self arguments')" for m w arguments'
    by (rule App_later)
  with run show ?thesis by blast
qed

text \<open>
  On the example page: the construction of \<open>app\<close>, then a call on the same object when
  the placeholder is gone.
\<close>

theorem constructed_once_witness:
  "get_property (heap (new_instance app_page)) app ''appready'' = Bool False
   \<and> app < length (heap (new_instance app_page))
   \<and> App (Suc (Suc 0)) (new_instance app_page) app [] = Some (Inr (Bool True), app_state)
   \<and> App (Suc 0) (app_state\<lparr>window := []\<rparr>) app [Str ''k'']
     = Some (dispatch (app_state\<lparr>window := []\<rparr>) app [Str ''k''])"
proof -
  have 1: "get_property (heap (new_instance app_page)) app ''appready'' = Bool False"
    by code_simp
  have 2: "app < length (heap (new_instance app_page))" by code_simp
  have 3: "App (Suc (Suc 0)) (new_instance app_page) app [] = Some (Inr (Bool True), app_state)"
    by code_simp
  from constructed_once [OF 1 2, of 0 "[]"] 3
  have "App (Suc 0) (app_state\<lparr>window := []\<rparr>) app [Str ''k'']
        = Some (dispatch (app_state\<lparr>window := []\<rparr>) app [Str ''k''])"
    by auto
  with 1 2 3 show ?thesis by simp
qed

text \<open>
  C2 as stated fails for two constructions: each \<open>new App()\<close> makes an object of its own,
  which inherits \<open>appready = false\<close> from the prototype. With one recorded call that
  registers the handler of the page, the second construction registers a second closure for
  the document (85 after 82) and replays the queue again, so the handler is set to run twice.
\<close>

theorem two_constructions_replay_twice:
  "(case new_App 2 (queue_page Complete True [[Ref page_handler]]) [] of
      Some (r, s) \<Rightarrow> map_option (\<lambda>p. timers (snd p)) (new_App 2 s [])
    | None \<Rightarrow> None)
   = Some [(Ref 82, []), (Ref page_handler, []), (Ref 85, []), (Ref page_handler, [])]"
  by code_simp


text \<open>
  C6, as the code has it. On a first construction with a placeholder whose \<open>queue\<close> is not
  an array, nothing is replayed: the call is the head of the initialisation followed by the
  dispatch of its own arguments, and without arguments it returns \<open>domready\<close> normally.
\<close>

theorem no_queue_no_replay:
  assumes "get_property (heap st) self ''appready'' = Bool False"
    and "map_of (window st) (loader_name st) = Some l"
    and "queue l = None"
  shows "App (Suc n) st self arguments = Some (dispatch (init_head st self) self arguments)
         \<and> App (Suc n) st self [] = Some (Inr (get_property (heap (init_head st self)) self ''domready''), init_head st self)"
  using App_first [OF assms(1,2), of n] assms(3)
  by (simp add: each_def dispatch_def arg_def typeof_def)

text \<open>On a page whose placeholder has a \<open>time\<close> and no queue, \<open>new App()\<close> gives \<open>domready\<close>.\<close>

theorem no_queue_no_replay_witness:
  "get_property (heap (new_instance (loaded Complete True (Some \<lparr>time = Num 900, queue = None\<rparr>))))
      app ''appready'' = Bool False
   \<and> map_of (window (new_instance (loaded Complete True (Some \<lparr>time = Num 900, queue = None\<rparr>))))
        (loader_name (new_instance (loaded Complete True (Some \<lparr>time = Num 900, queue = None\<rparr>))))
      = Some \<lparr>time = Num 900, queue = None\<rparr>
   \<and> map_option fst (App 1 (new_instance (loaded Complete True (Some \<lparr>time = Num 900, queue = None\<rparr>)))
        app []) = Some (Inr (Bool True))"
proof -
  let ?S = "new_instance (loaded Complete True (Some \<lparr>time = Num 900, queue = None\<rparr>))"
  have 1: "get_property (heap ?S) app ''appready'' = Bool False" by code_simp
  have 2: "map_of (window ?S) (loader_name ?S) = Some \<lparr>time = Num 900, queue = None\<rparr>"
    by code_simp
  have 3: "queue \<lparr>time = Num 900, queue = None\<rparr> = None" by simp
  have 4: "get_property (heap (init_head ?S app)) app ''domready'' = Bool True" by code_simp
  from no_queue_no_replay [OF 1 2 3, of 0 "[]", THEN conjunct2] 1 2 4 show ?thesis by simp
qed

text \<open>
  C6 as stated fails: without a placeholder \<open>loader\<close> is \<open>undefined\<close>, and
  \<open>loader.time\<close> on line 109 throws.
\<close>

theorem no_placeholder_throws:
  "map_option fst (new_App 2 (loaded Complete True None) []) = Some (Inl TypeError)"
  by code_simp


text \<open>
  C7, as the code has it. On a first construction the recorded calls are dispatched one after
  the other in the order of the queue, each once, on the object that is already marked
  ready, and the call that triggered the construction is dispatched after them, on the state
  that they leave. A recorded call that throws ends the replay and the construction: the
  calls behind it and the triggering call are not dispatched. A depth of two calls is enough
  for the constructor to return.
\<close>

theorem replay_in_order:
  assumes "get_property (heap st) self ''appready'' = Bool False"
    and "self < length (heap st)"
    and "map_of (window st) (loader_name st) = Some l"
    and "queue l = Some items"
  shows "App (Suc (Suc n)) st self arguments
         = Some (case dispatch_all (init_head st self) self items of
                   (Inl e, st') \<Rightarrow> (Inl e, st')
                 | (Inr v, st') \<Rightarrow> dispatch st' self arguments)"
proof -
  have "each (queue l) (\<lambda>item i s. App (Suc n) s self item) (init_head st self)
        = Some (dispatch_all (init_head st self) self items)"
    using assms(4) init_head_marks [OF assms(2)] by (simp add: each_def each_loop_replay)
  then show ?thesis
    using App_first [OF assms(1,3), of "Suc n" arguments]
    by (simp split: prod.splits sum.splits)
qed


text \<open>
  On a page with the recorded calls \<open>('a', 1)\<close> and \<open>(handler, 5)\<close>, a construction
  triggered by the call \<open>('a')\<close> returns the 1 that the first recorded call stored, and the
  timers hold the closure of the constructor and then the handler with its argument.
\<close>

theorem replay_in_order_witness:
  "get_property (heap (new_instance (queue_page Complete True [[Str ''a'', Num 1], [Ref page_handler, Num 5]])))
      app ''appready'' = Bool False
   \<and> app < length (heap (new_instance (queue_page Complete True [[Str ''a'', Num 1], [Ref page_handler, Num 5]])))
   \<and> App 2 (new_instance (queue_page Complete True [[Str ''a'', Num 1], [Ref page_handler, Num 5]]))
        app [Str ''a'']
     = Some (case dispatch_all
                    (init_head (new_instance (queue_page Complete True
                       [[Str ''a'', Num 1], [Ref page_handler, Num 5]])) app)
                    app [[Str ''a'', Num 1], [Ref page_handler, Num 5]] of
               (Inl e, st') \<Rightarrow> (Inl e, st')
             | (Inr v, st') \<Rightarrow> dispatch st' app [Str ''a''])
   \<and> map_option fst (App 2 (new_instance (queue_page Complete True
          [[Str ''a'', Num 1], [Ref page_handler, Num 5]])) app [Str ''a'']) = Some (Inr (Num 1))
   \<and> map_option (\<lambda>p. timers (snd p)) (App 2 (new_instance (queue_page Complete True
          [[Str ''a'', Num 1], [Ref page_handler, Num 5]])) app [Str ''a''])
     = Some [(Ref 82, []), (Ref page_handler, [Num 5])]"
proof -
  let ?S = "new_instance (queue_page Complete True [[Str ''a'', Num 1], [Ref page_handler, Num 5]])"
  let ?l = "\<lparr>time = Num 900, queue = Some [[Str ''a'', Num 1], [Ref page_handler, Num 5]]\<rparr>"
  have 1: "get_property (heap ?S) app ''appready'' = Bool False" by code_simp
  have 2: "app < length (heap ?S)" by code_simp
  have 3: "map_of (window ?S) (loader_name ?S) = Some ?l" by code_simp
  have 4: "queue ?l = Some [[Str ''a'', Num 1], [Ref page_handler, Num 5]]" by simp
  have 5: "map_option fst (App 2 ?S app [Str ''a'']) = Some (Inr (Num 1))" by code_simp
  have 6: "map_option (\<lambda>p. timers (snd p)) (App 2 ?S app [Str ''a''])
           = Some [(Ref 82, []), (Ref page_handler, [Num 5])]" by code_simp
  have 7: "App 2 ?S app [Str ''a''] = App (Suc (Suc 0)) ?S app [Str ''a'']"
    by (simp add: numeral_2_eq_2)
  from replay_in_order [OF 1 2 3 4, of 0 "[Str ''a'']"] 7
  have "App 2 ?S app [Str ''a'']
        = Some (case dispatch_all (init_head ?S app) app [[Str ''a'', Num 1], [Ref page_handler, Num 5]] of
                  (Inl e, st') \<Rightarrow> (Inl e, st')
                | (Inr v, st') \<Rightarrow> dispatch st' app [Str ''a''])"
    by (rule_tac trans)
  with 1 2 5 6 show ?thesis by blast
qed

text \<open>
  C7 as stated fails when a recorded call throws: the second call walks into the number
  that the first one stored, \<open>in\<close> throws, and the third call is never replayed (the store,
  object 32, holds \<open>a\<close> alone).
\<close>

theorem replay_stops_at_throw:
  "(case new_App 2 (queue_page Complete True
            [[Str ''a'', Num 1], [Str ''a.b'', Num 2], [Str ''c'', Num 3]]) [] of
      Some (r, s) \<Rightarrow> r = Inl TypeError \<and> props (heap s ! app_data) = [(''a'', Num 1)]
    | None \<Rightarrow> False)"
  by code_simp


section \<open>The callable form and the named methods\<close>

text \<open>
  C4: the callable form and the named methods do not work on the same store. On the example
  page, where \<open>app\<close> is constructed, \<open>App\<close> called on \<open>app\<close> with \<open>('key', 1)\<close>
  writes into \<open>self.data\<close>, and called with \<open>('key')\<close> it reads 1 there, while
  \<open>app.get('key', 'none')\<close> walks the App object itself and gives the default; the named
  method finds the value under \<open>data.key\<close>.
\<close>

theorem callable_and_named_differ:
  "(case App 1 app_state app [Str ''key'', Num 1] of
      Some (r, s) \<Rightarrow>
        r = Inr (Num 1)
        \<and> map_option fst (App 1 s app [Str ''key'']) = Some (Inr (Num 1))
        \<and> fst (get s app (PathString ''key'') (Str ''none'')) = Inr (Str ''none'')
        \<and> fst (get s app (PathString ''data.key'') (Str ''none'')) = Inr (Num 1)
    | None \<Rightarrow> False)"
  by code_simp

text \<open>
  C5: the named methods do not lower-case the path. After \<open>app.set('Key', 1)\<close>,
  \<open>app.get('Key', 'none')\<close> gives 1 and \<open>app.get('key', 'none')\<close> gives the default. The
  callable form lower-cases: what \<open>App\<close> called with \<open>('Key', 1)\<close> stores, the call with
  \<open>('key')\<close> reads.
\<close>

theorem named_methods_keep_case:
  "(case set_App app_state app (PathString ''Key'') (Num 1) of
      (r, s) \<Rightarrow>
        r = Inr (Num 1)
        \<and> fst (get s app (PathString ''Key'') (Str ''none'')) = Inr (Num 1)
        \<and> fst (get s app (PathString ''key'') (Str ''none'')) = Inr (Str ''none''))
   \<and> (case App 1 app_state app [Str ''Key'', Num 1] of
        Some (r, s) \<Rightarrow>
          r = Inr (Num 1) \<and> map_option fst (App 1 s app [Str ''key'']) = Some (Inr (Num 1))
      | None \<Rightarrow> False)"
  by code_simp

section \<open>Normalisation of a path\<close>

lemma replace_brackets_plain:
  "CHR ''['' \<notin> set p \<Longrightarrow> replace_brackets (p @ s) = p @ replace_brackets s"
  by (induction p) auto

lemma replace_brackets_token:
  assumes "t \<noteq> []" and "list_all is_word_char t"
  shows "replace_brackets (CHR ''['' # t @ CHR '']'' # r) = CHR ''.'' # t @ replace_brackets r"
proof -
  have nw: "\<not> is_word_char CHR '']''" by (simp add: is_word_char_def)
  have tw: "takeWhile is_word_char (t @ CHR '']'' # r) = t"
    using assms(2) nw by (induction t) simp_all
  have dw: "dropWhile is_word_char (t @ CHR '']'' # r) = CHR '']'' # r"
    using assms(2) nw by (induction t) simp_all
  from assms(1) tw dw show ?thesis by simp
qed

lemma word_char_not_bracket: "is_word_char c \<Longrightarrow> c \<noteq> CHR ''[''"
  by (auto simp: is_word_char_def)

lemma normalise_bracket:
  assumes "CHR ''['' \<notin> set p" and "t \<noteq> []" and "list_all is_word_char t"
  shows "normalise (p @ CHR ''['' # t @ CHR '']'' # r) = normalise (p @ CHR ''.'' # t @ r)"
proof -
  have "CHR ''['' \<notin> set t"
    using assms(3) word_char_not_bracket by (auto simp: list_all_iff)
  with assms(1) have "CHR ''['' \<notin> set (p @ CHR ''.'' # t)" by simp
  from replace_brackets_plain [OF this, of r]
  have "replace_brackets (p @ CHR ''.'' # t @ r) = p @ CHR ''.'' # t @ replace_brackets r"
    by simp
  moreover have "replace_brackets (p @ CHR ''['' # t @ CHR '']'' # r)
                 = p @ CHR ''.'' # t @ replace_brackets r"
    using replace_brackets_plain [OF assms(1)] replace_brackets_token [OF assms(2,3)] by simp
  ultimately show ?thesis by (simp add: normalise_def)
qed


lemma split_dot_plain: "CHR ''.'' \<notin> set k \<Longrightarrow> split_dot (k @ CHR ''.'' # s) = k # split_dot s"
  by (induction k) auto

lemma split_dot_single: "CHR ''.'' \<notin> set k \<Longrightarrow> split_dot k = [k]"
  by (induction k) auto

lemma split_dot_join:
  "ks \<noteq> [] \<Longrightarrow> list_all (\<lambda>k. CHR ''.'' \<notin> set k) ks \<Longrightarrow> split_dot (join_dots ks) = ks"
proof (induction ks rule: join_dots.induct)
  case 1
  then show ?case by simp
next
  case (2 k)
  then show ?case by (simp add: split_dot_single)
next
  case (3 k k' ks)
  then show ?case by (simp add: split_dot_plain)
qed

lemma replace_brackets_none: "CHR ''['' \<notin> set s \<Longrightarrow> replace_brackets s = s"
  using replace_brackets_plain [of s "[]"] by simp

lemma set_join_dots: "set (join_dots ks) \<subseteq> insert CHR ''.'' (\<Union>k\<in>set ks. set k)"
  by (induction ks rule: join_dots.induct) auto

lemma normalise_join:
  assumes "ks \<noteq> []" and "hd ks \<noteq> []"
    and "list_all (\<lambda>k. CHR ''.'' \<notin> set k \<and> CHR ''['' \<notin> set k) ks"
  shows "normalise (join_dots ks) = ks"
proof -
  have "CHR ''['' \<notin> set (join_dots ks)"
    using assms(3) set_join_dots [of ks] by (auto simp: list_all_iff)
  then have r: "replace_brackets (join_dots ks) = join_dots ks" by (rule replace_brackets_none)
  obtain k rest where ks: "ks = k # rest" using assms(1) by (cases ks) auto
  with assms(2) obtain c cs where k: "k = c # cs" by (cases k) auto
  have "c \<noteq> CHR ''.''" using assms(3) ks k by auto
  then have s: "strip_leading_dot (join_dots ks) = join_dots ks"
    using ks k by (cases rest) simp_all
  have "list_all (\<lambda>k. CHR ''.'' \<notin> set k) ks" using assms(3) by (simp add: list_all_iff)
  from split_dot_join [OF assms(1) this] r s show ?thesis by (simp add: normalise_def)
qed

lemma normalise_leading_dot: "normalise (CHR ''.'' # s) = split_dot (replace_brackets s)"
  by (simp add: normalise_def)


text \<open>
  C8. \<open>normalise\<close> is the three steps of lines 59-63. A bracketed token of word characters
  addresses what the dotted token addresses, for every object, value and mode of
  \<open>_getOrSet\<close>; one leading dot is removed; and segments without dots and brackets, the
  first one not empty, written with dots between them, are split into themselves. Both
  \<open>a.b[0].c\<close> and \<open>a.b.0.c\<close> are the segments \<open>a\<close>, \<open>b\<close>, \<open>0\<close>, \<open>c\<close>, and \<open>get\<close>
  gives the same result and state for them.
\<close>

theorem bracket_is_dot:
  "(CHR ''['' \<notin> set p \<and> t \<noteq> [] \<and> list_all is_word_char t
      \<longrightarrow> getOrSet h object (PathString (p @ CHR ''['' # t @ CHR '']'' # r)) value create
          = getOrSet h object (PathString (p @ CHR ''.'' # t @ r)) value create)
   \<and> normalise (CHR ''.'' # s) = split_dot (replace_brackets s)
   \<and> (ks \<noteq> [] \<and> hd ks \<noteq> [] \<and> list_all (\<lambda>k. CHR ''.'' \<notin> set k \<and> CHR ''['' \<notin> set k) ks
      \<longrightarrow> normalise (join_dots ks) = ks)
   \<and> normalise ''a.b[0].c'' = [''a'', ''b'', ''0'', ''c'']
   \<and> normalise ''a.b.0.c'' = [''a'', ''b'', ''0'', ''c'']
   \<and> get st this (PathString ''a.b[0].c'') D = get st this (PathString ''a.b.0.c'') D"
proof -
  have 1: "normalise ''a.b[0].c'' = [''a'', ''b'', ''0'', ''c'']" by code_simp
  have 2: "normalise ''a.b.0.c'' = [''a'', ''b'', ''0'', ''c'']" by code_simp
  from 1 2 show ?thesis
    by (simp add: getOrSet_def get_def path_segments_def normalise_bracket normalise_join
        normalise_leading_dot)
qed

text \<open>On the example page, for the token \<open>0\<close> behind \<open>a.b\<close> and for the segments \<open>user\<close>, \<open>name\<close>.\<close>

theorem bracket_is_dot_witness:
  "CHR ''['' \<notin> set ''a.b'' \<and> ''0'' \<noteq> [] \<and> list_all is_word_char ''0''
   \<and> getOrSet (heap app_state) (Ref app) (PathString ''a.b[0].c'') Undefined Undefined
     = getOrSet (heap app_state) (Ref app) (PathString ''a.b.0.c'') Undefined Undefined
   \<and> [''user'', ''name''] \<noteq> [] \<and> hd [''user'', ''name''] \<noteq> []
   \<and> list_all (\<lambda>k. CHR ''.'' \<notin> set k \<and> CHR ''['' \<notin> set k) [''user'', ''name'']
   \<and> normalise (join_dots [''user'', ''name'']) = [''user'', ''name'']"
proof -
  have h: "CHR ''['' \<notin> set ''a.b'' \<and> ''0'' \<noteq> [] \<and> list_all is_word_char ''0''"
    by (simp add: is_word_char_def)
  have k: "[''user'', ''name''] \<noteq> [] \<and> hd [''user'', ''name''] \<noteq> []
           \<and> list_all (\<lambda>k. CHR ''.'' \<notin> set k \<and> CHR ''['' \<notin> set k) [''user'', ''name'']"
    by simp
  from bracket_is_dot [of "''a.b''" "''0''" "heap app_state" "Ref app" "''.c''" Undefined Undefined
      "[]" "[''user'', ''name'']" app_state app Undefined] h k
  show ?thesis by simp
qed

section \<open>The handler for the ready document\<close>

lemma foldl_readyFn: "foldl readyFn s ds = s\<lparr>timers := timers s @ ds\<rparr>"
  by (induction ds arbitrary: s) (simp_all add: readyFn_def)

lemma foldl_readyFn_guarded:
  "readyState s \<noteq> Loading
    \<Longrightarrow> foldl (\<lambda>s d. if readyState s \<noteq> Loading then readyFn s d else s) s ds
        = s\<lparr>timers := timers s @ ds\<rparr>"
  by (induction ds arbitrary: s) (simp_all add: readyFn_def)

lemma document_loads_eq:
  "document_loads st
   = st\<lparr>readyState := Complete,
        timers := timers st @ onreadystatechange st @ domContentLoaded st @ onreadystatechange st\<rparr>"
  by (simp add: document_loads_def fire_readystatechange_def fire_DOMContentLoaded_def
      foldl_readyFn foldl_readyFn_guarded)

lemma native_calls_append [simp]: "native_calls h (ds @ es) = native_calls h ds @ native_calls h es"
  by (simp add: native_calls_def)

lemma native_calls_put [simp]: "native_calls (put_property h a k v) ds = native_calls h ds"
proof -
  have "code (put_property h a k v ! f) = code (h ! f)" if "f < length h" for f
    using that by (cases "f = a") (simp_all add: put_property_def)
  then show ?thesis
    by (auto simp: native_calls_def intro!: arg_cong [where f = concat] split: jsval.splits)
qed

lemma run_handler_heap: "native_calls (heap (run_handler s d)) ds = native_calls (heap s) ds"
  by (simp add: run_handler_def split: jsval.splits option.splits fcode.splits)

lemma run_handler_calls: "calls (run_handler s d) = calls s @ native_calls (heap s) [d]"
  by (simp add: run_handler_def native_calls_def split: jsval.splits option.splits fcode.splits)

lemma foldl_run_handler:
  "calls (foldl run_handler s ds) = calls s @ native_calls (heap s) ds"
proof (induction ds arbitrary: s)
  case Nil
  then show ?case by (simp add: native_calls_def)
next
  case (Cons d ds)
  have "native_calls (heap s) (d # ds) = native_calls (heap s) [d] @ native_calls (heap s) ds"
    by (simp add: native_calls_def)
  with Cons.IH [of "run_handler s d"] show ?case
    by (simp add: run_handler_heap run_handler_calls)
qed

lemma calls_run_timers: "calls (run_timers st) = calls st @ native_calls (heap st) (timers st)"
  by (simp add: run_timers_def foldl_run_handler)
lemma init_head_calls [simp]: "calls (init_head st self) = calls st"
  by (simp add: init_head_def Let_def new_function_def)

lemma App_calls:
  "App n st self arguments = Some (r, st') \<Longrightarrow> calls st' = calls st"
proof (induction n arbitrary: st arguments r st')
  case 0
  then show ?case by simp
next
  case (Suc n)
  show ?case
  proof (cases "get_property (heap st) self ''appready'' = Bool False")
    case False
    from App_later [OF False, of n arguments] Suc.prems
    have "st' = snd (dispatch st self arguments)" by (auto simp: prod_eq_iff)
    then show ?thesis by simp
  next
    case first: True
    show ?thesis
    proof (cases "map_of (window st) (loader_name st)")
      case None
      from App_no_placeholder [OF first None, of n arguments] Suc.prems show ?thesis
        by auto
    next
      case (Some l)
      note unfold = App_first [OF first Some, of n arguments]
      from unfold Suc.prems obtain r0 s0 where
        e: "each (queue l) (\<lambda>item i s. App n s self item) (init_head st self) = Some (r0, s0)"
        by (cases "each (queue l) (\<lambda>item i s. App n s self item) (init_head st self)") auto
      have P0: "calls s0 = calls st"
      proof (cases "queue l")
        case None
        with e show ?thesis by (auto simp: each_def)
      next
        case (Some items)
        with e have "each_loop 0 items (\<lambda>item i s. App n s self item) (init_head st self) = Some (r0, s0)"
          by (simp add: each_def)
        from each_loop_invariant [where P = "\<lambda>s. calls s = calls st", OF _ this] Suc.IH
        show ?thesis by simp
      qed
      show ?thesis
      proof (cases r0)
        case (Inl e0)
        with unfold e Suc.prems P0 show ?thesis by simp
      next
        case (Inr v0)
        with unfold e Suc.prems have "st' = snd (dispatch s0 self arguments)"
          by (auto simp: prod_eq_iff)
        with P0 show ?thesis by simp
      qed
    qed
  qed
qed


text \<open>
  What registering a handler does. Registering (with \<open>ready\<close>, with the callable form, in
  a construction) calls no function: the handler is only stored in a timer or a listener.
  When the document is ready at that moment, the timers run the handler once more than
  before, last, with the arguments given at the registration. When the document is loading
  and has \<open>addEventListener\<close>, the handler runs exactly once more in the course of the
  load than it would without the registration.
\<close>

theorem ready_defers_handler:
  assumes "f < length (heap st)" and "code (heap st ! f) = Some Native"
  shows "calls (ready st (Ref f # args)) = calls st
    \<and> dispatch st self (Ref f # args) = (Inr Undefined, ready st (Ref f # args))
    \<and> (\<forall>n r st'. App n st self (Ref f # args) = Some (r, st') \<longrightarrow> calls st' = calls st)
    \<and> (readyState st \<noteq> Loading \<longrightarrow>
         calls (run_timers (ready st (Ref f # args))) = calls (run_timers st) @ [(f, args)])
    \<and> (readyState st = Loading \<and> addEventListener st \<longrightarrow>
         (\<forall>x. count_list (calls (run_timers (document_loads (ready st (Ref f # args))))) x
              = count_list (calls (run_timers (document_loads st))) x
                + (if x = (f, args) then 1 else 0)))"
proof -
  have nat: "native_calls (heap st) ((Ref f, args) # ds) = (f, args) # native_calls (heap st) ds" for ds
    using assms by (simp add: native_calls_def)
  have nil: "native_calls (heap st) [] = []" by (simp add: native_calls_def)
  have 1: "calls (ready st (Ref f # args)) = calls st" by simp
  have 2: "dispatch st self (Ref f # args) = (Inr Undefined, ready st (Ref f # args))"
    using assms by (simp add: dispatch_def arg_def typeof_def)
  have 3: "\<forall>n r st'. App n st self (Ref f # args) = Some (r, st') \<longrightarrow> calls st' = calls st"
    using App_calls by blast
  have 4: "calls (run_timers (ready st (Ref f # args))) = calls (run_timers st) @ [(f, args)]"
    if "readyState st \<noteq> Loading"
    using that nat nil by (simp add: calls_run_timers ready_def readyFn_def arg_def)
  have 5: "count_list (calls (run_timers (document_loads (ready st (Ref f # args))))) x
           = count_list (calls (run_timers (document_loads st))) x + (if x = (f, args) then 1 else 0)"
    if "readyState st = Loading" "addEventListener st" for x
    using that nat nil by (simp add: calls_run_timers document_loads_eq ready_def arg_def)
  from 1 2 3 4 5 show ?thesis by blast
qed

text \<open>
  The handler of the page registered with the argument 5, on a document that is complete and
  on one that is loading: no call at the registration, one call afterwards.
\<close>

theorem ready_defers_handler_witness:
  "page_handler < length (heap (loaded Complete True None))
   \<and> code (heap (loaded Complete True None) ! page_handler) = Some Native
   \<and> readyState (loaded Complete True None) \<noteq> Loading
   \<and> calls (ready (loaded Complete True None) [Ref page_handler, Num 5]) = []
   \<and> calls (run_timers (ready (loaded Complete True None) [Ref page_handler, Num 5]))
     = [(page_handler, [Num 5])]
   \<and> readyState (loaded Loading True None) = Loading
   \<and> addEventListener (loaded Loading True None)
   \<and> count_list (calls (run_timers (document_loads
          (ready (loaded Loading True None) [Ref page_handler, Num 5])))) (page_handler, [Num 5]) = 1"
proof -
  have a: "page_handler < length (heap (loaded Complete True None))" by code_simp
  have b: "code (heap (loaded Complete True None) ! page_handler) = Some Native" by code_simp
  have c: "readyState (loaded Complete True None) \<noteq> Loading" by code_simp
  have d: "calls (loaded Complete True None) = []" by code_simp
  have e: "calls (run_timers (loaded Complete True None)) = []" by code_simp
  have a': "page_handler < length (heap (loaded Loading True None))" by code_simp
  have b': "code (heap (loaded Loading True None) ! page_handler) = Some Native" by code_simp
  have c': "readyState (loaded Loading True None) = Loading" by code_simp
  have d': "addEventListener (loaded Loading True None)" by code_simp
  have e': "calls (run_timers (document_loads (loaded Loading True None))) = []" by code_simp
  from ready_defers_handler [OF a b, of "[Num 5]" app] ready_defers_handler [OF a' b', of "[Num 5]" app]
    a b c d e c' d' e'
  show ?thesis by simp
qed


text \<open>
  C9: a handler registered through \<open>ready\<close> is to run later, never at the registration,
  and exactly once, with the arguments of the registration. On a loading document without
  \<open>addEventListener\<close> the code runs it twice: the listener of lines 198-202 runs
  \<open>readyFn\<close> at each \<open>readystatechange\<close> that finds the document no longer loading, at
  \<open>interactive\<close> and again at \<open>complete\<close>, while the two other branches of \<open>ready\<close>
  run the handler once.
\<close>

theorem legacy_listener_runs_handler_twice:
  "calls (run_timers (document_loads
      (ready (loaded Loading False None) [Ref page_handler, Num 5])))
   = [(page_handler, [Num 5]), (page_handler, [Num 5])]"
  by code_simp

section \<open>Members of the App object\<close>

lemma member_names_plain:
  "list_all (\<lambda>k. normalise k = [k]) (map fst (prototype_props b debug domready window_each ie))"
  by (simp add: prototype_props_def normalise_def is_word_char_def)

lemma member_normalise:
  assumes "map_of (prototype_props b debug domready window_each ie) k = Some v"
  shows "normalise k = [k]"
proof -
  from assms have "k \<in> set (map fst (prototype_props b debug domready window_each ie))"
    by (auto dest: map_of_SomeD intro: rev_image_eqI)
  with member_names_plain [of b debug domready window_each ie] show ?thesis
    by (simp add: list_all_iff del: set_map)
qed

lemma length_method_objects [simp]: "length (method_objects m a ms) = 2 * length ms"
  by (induction m a ms rule: method_objects.induct) (simp_all add: function_objects_def)

lemma length_module_objects [simp]:
  "length (module_objects m b debug domready window_each ie) = 52"
proof -
  have "length methods = 24" by (simp add: methods_def)
  then show ?thesis by (simp add: module_objects_def)
qed

lemma instance_inherits:
  assumes "map_of (prototype_props (length (heap st0)) debug (readyState st0 \<noteq> Loading) window_each ie) k = Some v"
  shows "lookup_chain (heap (new_instance (load_script st0 debug window_each ie)))
           (length (heap (load_script st0 debug window_each ie))) k = Some v"
proof -
  let ?b = "length (heap st0)"
  let ?H = "heap (new_instance (load_script st0 debug window_each ie))"
  have H: "?H = heap st0 @ module_objects (functionNames st0) ?b debug (readyState st0 \<noteq> Loading)
                             window_each ie
                @ [\<lparr>props = [], proto = Some (?b + 2), code = None\<rparr>]"
    by (simp add: new_instance_def load_script_def)
  have len: "length ?H = ?b + 53" by (simp add: H)
  have inst: "?H ! (?b + 52) = \<lparr>props = [], proto = Some (?b + 2), code = None\<rparr>"
    by (simp add: H nth_append)
  have prot: "props (?H ! (?b + 2))
              = prototype_props ?b debug (readyState st0 \<noteq> Loading) window_each ie"
    by (simp add: H nth_append module_objects_def)
  have "lookup_chain ?H (?b + 2) k = Some v"
    using assms len prot by (subst lookup_chain.simps) simp
  then have "lookup_chain ?H (?b + 52) k = Some v"
    using len inst by (subst lookup_chain.simps) simp
  then show ?thesis by (simp add: load_script_def)
qed

text \<open>
  C10, as the code has it. The named \<open>get\<close> and \<open>set\<close> walk the App object itself, and
  \<open>in\<close> sees the inherited members. After the script is loaded, the construction
  \<open>new App(...)\<close> returns, and on the state that it leaves, with no \<open>set\<close> before: for
  every member name \<open>k\<close> of the prototype, \<open>get(k, D)\<close> on the instance returns that
  member for every default \<open>D\<close>, and \<open>set(k, V)\<close> returns it too and writes nothing; the
  same holds for the own members \<open>appready\<close> (which hides the one of the prototype) and
  \<open>time\<close>, written by the constructor; and a longer path whose first segment is \<open>k\<close>
  goes on from that member with the segments that are left.
\<close>

theorem get_finds_member:
  assumes "map_of (prototype_props (length (heap st0)) debug (readyState st0 \<noteq> Loading) window_each ie) k
           = Some v"
    and "k \<noteq> ''appready''"
  shows "\<exists>r st. new_App (Suc (Suc n)) (load_script st0 debug window_each ie) arguments = Some (r, st)
    \<and> (\<forall>D V rest.
          get st (length (heap (load_script st0 debug window_each ie))) (PathString k) D = (Inr v, st)
          \<and> set_App st (length (heap (load_script st0 debug window_each ie))) (PathString k) V
            = (Inr v, st)
          \<and> get st (length (heap (load_script st0 debug window_each ie))) (PathArray (k # rest)) D
            = (case getOrSet_loop (heap st) v rest D Undefined of (r', h) \<Rightarrow> (r', st\<lparr>heap := h\<rparr>))
          \<and> set_App st (length (heap (load_script st0 debug window_each ie))) (PathArray (k # rest)) V
            = (case getOrSet_loop (heap st) v rest V (Bool True) of (r', h) \<Rightarrow> (r', st\<lparr>heap := h\<rparr>))
          \<and> get st (length (heap (load_script st0 debug window_each ie))) (PathString ''appready'') D
            = (Inr (Bool True), st)
          \<and> set_App st (length (heap (load_script st0 debug window_each ie))) (PathString ''appready'') V
            = (Inr (Bool True), st)
          \<and> get st (length (heap (load_script st0 debug window_each ie))) (PathString ''time'') D
            = (Inr (Num (now st0)), st)
          \<and> set_App st (length (heap (load_script st0 debug window_each ie))) (PathString ''time'') V
            = (Inr (Num (now st0)), st))"
proof -
  let ?L = "load_script st0 debug window_each ie"
  let ?self = "length (heap ?L)"
  let ?N = "new_instance ?L"
  let ?head = "put_property (put_property (heap ?N) ?self ''time'' (Num (now ?N)))
                 ?self ''appready'' (Bool True)"
  have alloc: "?self < length (heap ?N)" by (simp add: new_instance_def)
  from App_returns [OF alloc, of n arguments]
  obtain r' st where run: "App (Suc (Suc n)) ?N ?self arguments = Some (r', st)"
    by auto
  then obtain r where new: "new_App (Suc (Suc n)) ?L arguments = Some (r, st)"
    by (cases r') (simp_all add: new_App_def Let_def)
  have "map_of (prototype_props (length (heap st0)) debug (readyState st0 \<noteq> Loading) window_each ie)
          ''appready'' = Some (Bool False)"
    by (simp add: prototype_props_def)
  from instance_inherits [OF this]
  have first: "get_property (heap ?N) ?self ''appready'' = Bool False"
    by (simp add: get_property_def)
  have "map_of (prototype_props (length (heap st0)) debug (readyState st0 \<noteq> Loading) window_each ie)
          ''time'' = None"
    by (simp add: prototype_props_def)
  with assms(1) have nt: "k \<noteq> ''time''" by auto
  have hk: "lookup_chain ?head ?self k = Some v"
    using instance_inherits [OF assms(1)] nt assms(2) by (simp add: lookup_chain_put_other_key)
  have hm: "lookup_chain ?head ?self ''appready'' = Some (Bool True)"
    using alloc by (simp add: lookup_chain_put_same)
  have "lookup_chain (put_property (heap ?N) ?self ''time'' (Num (now ?N))) ?self ''time''
        = Some (Num (now ?N))"
    using alloc by (simp add: lookup_chain_put_same)
  then have ht: "lookup_chain ?head ?self ''time'' = Some (Num (now st0))"
    by (simp add: lookup_chain_put_other_key new_instance_def load_script_def)
  note k = App_first_keeps [OF run alloc first hk]
  note m = App_first_keeps [OF run alloc first hm]
  note t = App_first_keeps [OF run alloc first ht]
  have "normalise ''appready'' = [''appready'']" and "normalise ''time'' = [''time'']"
    by code_simp+
  with k m t member_normalise [OF assms(1)]
  have "get st ?self (PathString k) D = (Inr v, st)
        \<and> set_App st ?self (PathString k) V = (Inr v, st)
        \<and> get st ?self (PathArray (k # rest)) D
          = (case getOrSet_loop (heap st) v rest D Undefined of (r', h) \<Rightarrow> (r', st\<lparr>heap := h\<rparr>))
        \<and> set_App st ?self (PathArray (k # rest)) V
          = (case getOrSet_loop (heap st) v rest V (Bool True) of (r', h) \<Rightarrow> (r', st\<lparr>heap := h\<rparr>))
        \<and> get st ?self (PathString ''appready'') D = (Inr (Bool True), st)
        \<and> set_App st ?self (PathString ''appready'') V = (Inr (Bool True), st)
        \<and> get st ?self (PathString ''time'') D = (Inr (Num (now st0)), st)
        \<and> set_App st ?self (PathString ''time'') V = (Inr (Num (now st0)), st)" for D V rest
    by (simp add: get_def set_App_def getOrSet_def path_segments_def has_property_def
        get_property_def)
  with new show ?thesis by blast
qed

text \<open>
  On the example page: \<open>app.get('noop', 'none')\<close>, \<open>app.get('data', 'none')\<close>,
  \<open>app.get('debug', 'none')\<close> and \<open>app.get('time', 'none')\<close> give the members, not the
  default, \<open>app.set('debug', 1)\<close> gives the member and leaves the state as it is, and
  \<open>app.get('get.length', 'none')\<close> goes on from the method to the number of its parameters.
\<close>

theorem get_finds_member_witness:
  "new_App (Suc (Suc 0)) app_page [] = Some (Inr (Ref app), app_state)
   \<and> get app_state app (PathString ''noop'') (Str ''none'') = (Inr (Ref 75), app_state)
   \<and> get app_state app (PathString ''data'') (Str ''none'') = (Inr (Ref app_data), app_state)
   \<and> get app_state app (PathString ''debug'') (Str ''none'') = (Inr (Bool False), app_state)
   \<and> set_App app_state app (PathString ''debug'') (Num 1) = (Inr (Bool False), app_state)
   \<and> get app_state app (PathString ''appready'') (Str ''none'') = (Inr (Bool True), app_state)
   \<and> get app_state app (PathString ''time'') (Str ''none'') = (Inr (Num 1000), app_state)
   \<and> get app_state app (PathArray [''get'', ''length'']) (Str ''none'') = (Inr (Num 2), app_state)"
proof -
  let ?P = "page Complete True (Some \<lparr>time = Num 900, queue = Some []\<rparr>)"
  have run: "new_App (Suc (Suc 0)) (load_script ?P False Undefined (Bool False)) []
             = Some (Inr (Ref app), app_state)"
    by code_simp
  let ?props = "prototype_props (length (heap ?P)) False (readyState ?P \<noteq> Loading) Undefined (Bool False)"
  have 1: "map_of ?props ''noop'' = Some (Ref 75)" by code_simp
  have 2: "map_of ?props ''data'' = Some (Ref app_data)" by code_simp
  have 3: "map_of ?props ''debug'' = Some (Bool False)" by code_simp
  have 4: "map_of ?props ''get'' = Some (Ref 37)" by code_simp
  have self: "length (heap (load_script ?P False Undefined (Bool False))) = app" by code_simp
  have now: "now ?P = 1000" by code_simp
  have len: "getOrSet_loop (heap app_state) (Ref 37) [''length''] (Str ''none'') Undefined
             = (Inr (Num 2), heap app_state)" by code_simp
  from get_finds_member [OF 1, of 0 "[]"] get_finds_member [OF 2, of 0 "[]"]
    get_finds_member [OF 3, of 0 "[]"] get_finds_member [OF 4, of 0 "[]"] run self now len
  show ?thesis by (auto simp: app_page_def loaded_def)
qed

text \<open>
  C10 as stated fails for a path of more than one segment: the first segment of \<open>data.x\<close>
  and of \<open>debug.x\<close> names a member, but \<open>get('data.x', 'none')\<close> walks on into the store
  and returns the default, and \<open>get('debug.x', 'none')\<close> throws; neither returns the member.
\<close>

theorem longer_path_leaves_member:
  "get app_state app (PathString ''data'') (Str ''none'') = (Inr (Ref app_data), app_state)
   \<and> get app_state app (PathString ''data.x'') (Str ''none'') = (Inr (Str ''none''), app_state)
   \<and> get app_state app (PathString ''debug'') (Str ''none'') = (Inr (Bool False), app_state)
   \<and> get app_state app (PathString ''debug.x'') (Str ''none'') = (Inl TypeError, app_state)"
  by code_simp

section \<open>Further properties of the accessor and the constructor\<close>

text \<open>A read never writes: \<open>get\<close> leaves the state as it is, for every path and default.\<close>

theorem get_never_writes: "snd (get st this P D) = st"
  by (simp add: get_def getOrSet_def split_beta getOrSet_loop_read_only)


text \<open>
  \<open>set\<close> never changes a property that is there: a lookup that finds a value, on any
  object, finds the same value after \<open>set\<close>, for every path and value.
\<close>

theorem set_keeps_members:
  assumes "lookup_chain (heap st) a k = Some v"
  shows "lookup_chain (heap (snd (set_App st this P V))) a k = Some v"
  using getOrSet_loop_keeps [OF assms] by (simp add: set_App_def getOrSet_def split_beta)


text \<open>After \<open>set('a', 1)\<close>, \<open>set('a.b', 2)\<close> throws and leaves \<open>a\<close> as it is.\<close>

theorem set_keeps_members_witness:
  "lookup_chain (heap scalar_state) app ''a'' = Some (Num 1)
   \<and> lookup_chain (heap (snd (set_App scalar_state app (PathString ''a.b'') (Num 2)))) app ''a''
     = Some (Num 1)"
proof -
  have 1: "lookup_chain (heap scalar_state) app ''a'' = Some (Num 1)" by code_simp
  from set_keeps_members [OF 1, of app "PathString ''a.b''" "Num 2"] 1 show ?thesis by simp
qed

lemma getOrSet_loop_reading:
  "create \<noteq> Bool True \<Longrightarrow> create' \<noteq> Bool True
    \<Longrightarrow> getOrSet_loop h object ks value create = getOrSet_loop h object ks value create'"
  by (induction ks arbitrary: object) (auto split: jsval.splits)


text \<open>
  With a string as the first argument, the dispatch of lines 125-134 is the named accessor
  applied to the object \<open>self.data\<close> with the path lower-cased: \<open>get\<close> when the second
  argument is missing or \<open>undefined\<close>, \<open>set\<close> otherwise.
\<close>

theorem callable_is_accessor_on_data:
  assumes "get_property (heap st) self ''data'' = Ref d"
  shows "dispatch st self [Str p] = get st d (PathString (toLowerCase p)) Undefined
    \<and> dispatch st self [Str p, Undefined] = get st d (PathString (toLowerCase p)) Undefined
    \<and> (v \<noteq> Undefined \<longrightarrow> dispatch st self [Str p, v] = set_App st d (PathString (toLowerCase p)) v)"
proof -
  have t: "typeof (heap st) v \<noteq> ''undefined''" if "v \<noteq> Undefined"
    using that by (cases v) (simp_all add: typeof_def)
  have g: "getOrSet_loop (heap st) (Ref d) ks Undefined (Bool False)
           = getOrSet_loop (heap st) (Ref d) ks Undefined Undefined" for ks
    by (rule getOrSet_loop_reading) simp_all
  show ?thesis
    using assms t g
    by (simp add: dispatch_def get_def set_App_def arg_def typeof_def getOrSet_def)
qed


text \<open>On the example page \<open>self.data\<close> is the object 32.\<close>

theorem callable_is_accessor_on_data_witness:
  "get_property (heap app_state) app ''data'' = Ref app_data
   \<and> dispatch app_state app [Str ''Key''] = get app_state app_data (PathString ''key'') Undefined
   \<and> Num 1 \<noteq> Undefined
   \<and> dispatch app_state app [Str ''Key'', Num 1] = set_App app_state app_data (PathString ''key'') (Num 1)"
proof -
  have 1: "get_property (heap app_state) app ''data'' = Ref app_data" by code_simp
  have 2: "toLowerCase ''Key'' = ''key''" by code_simp
  from callable_is_accessor_on_data [OF 1, of "''Key''" "Num 1"] 1 2 show ?thesis by simp
qed

end
